theory Spec2Isabelle
  imports Main
begin

section \<open>Python string primitives used by \<open>system_packages.py\<close>\<close>

text \<open>
  A Python \<open>str\<close> is modelled as a \<open>string\<close>; a \<open>char\<close> stands for the code point of the
  same number, so the model covers text whose code points are below 256.  The four
  primitives below are the built-ins the script calls: the operator \<open>in\<close> on strings,
  \<open>str.replace\<close>, \<open>str.split\<close> with an explicit separator, and \<open>str.strip\<close> without
  arguments.
\<close>

definition startswith :: "string \<Rightarrow> string \<Rightarrow> bool" where
  "startswith s pre = (take (length pre) s = pre)"

text \<open>\<open>sub in s\<close>: \<open>sub\<close> occurs in \<open>s\<close> as a contiguous substring.\<close>

fun py_in :: "string \<Rightarrow> string \<Rightarrow> bool" where
  "py_in sub [] = (sub = [])"
| "py_in sub (c # cs) = (startswith (c # cs) sub \<or> py_in sub cs)"

text \<open>
  \<open>s.replace(old, new)\<close>: every non-overlapping occurrence of \<open>old\<close>, found from the left,
  is replaced.  With an empty \<open>old\<close> Python inserts \<open>new\<close> before every character and at
  the end.
\<close>

function py_replace :: "string \<Rightarrow> string \<Rightarrow> string \<Rightarrow> string" where
  "py_replace old new [] = (if old = [] then new else [])"
| "py_replace old new (c # cs) =
     (if old = [] then new @ c # py_replace old new cs
      else if startswith (c # cs) old
        then new @ py_replace old new (drop (length old) (c # cs))
      else c # py_replace old new cs)"
  by pat_completeness auto
termination
  by (relation "measure (\<lambda>(old, new, s). length s)") auto

text \<open>
  \<open>s.split(sep)\<close> for a non-empty separator: the pieces between the non-overlapping
  occurrences of \<open>sep\<close>, found from the left; the result is never the empty list
  (\<open>''.split(sep)\<close> is \<open>['']\<close>).  Every call of the script passes a non-empty literal, so
  the \<open>ValueError\<close> of an empty separator cannot arise; for an empty \<open>sep\<close> the model
  leaves the string in one piece.
\<close>

function py_split :: "string \<Rightarrow> string \<Rightarrow> string list" where
  "py_split sep [] = [[]]"
| "py_split sep (c # cs) =
     (if sep \<noteq> [] \<and> startswith (c # cs) sep
        then [] # py_split sep (drop (length sep) (c # cs))
      else (case py_split sep cs of [] \<Rightarrow> [[c]] | w # ws \<Rightarrow> (c # w) # ws))"
  by pat_completeness auto
termination
  by (relation "measure (\<lambda>(sep, s). length s)") auto

text \<open>
  The characters \<open>str.strip()\<close> removes: those for which \<open>str.isspace\<close> holds.  Below
  256 these are tab, line feed, vertical tab, form feed, carriage return, the four
  separators \<open>0x1c\<close> to \<open>0x1f\<close>, space, \<open>0x85\<close> and \<open>0xa0\<close>.
\<close>

definition isspace :: "char \<Rightarrow> bool" where
  "isspace c =
     (List.member [9, 10, 11, 12, 13, 28, 29, 30, 31, 32, 133, 160] (of_char c :: nat))"

definition py_strip :: "string \<Rightarrow> string" where
  "py_strip s = rev (dropWhile isspace (rev (dropWhile isspace s)))"

section \<open>The registry of instances\<close>

text \<open>
  \<open>PackageManager.__new__\<close> appends every instance of the class family to the class
  attribute \<open>_childs\<close>, in the order of creation.  An instance has the attributes
  \<open>pkgs_names\<close> and \<open>pkgs_dpnds\<close> only once its \<open>main\<close> has run to the end; reading them
  before raises \<open>AttributeError\<close>.
\<close>

datatype error =
    UnboundLocalError string
  | AttributeError string
  | OSError string

datatype kind = PackageManager | MarkedPackages | LogsPackages | SnapPackages

record attrs =
  pkgs_names :: "string set"
  pkgs_dpnds :: "string set"

record child =
  cls :: kind
  attrs :: "attrs option"

definition new :: "kind \<Rightarrow> child list \<Rightarrow> child \<times> child list" where
  "new k childs =
     (let instance = \<lparr>cls = k, attrs = None\<rparr> in (instance, childs @ [instance]))"

subsection \<open>\<open>PackageManager.sum_pkgs\<close>\<close>

text \<open>
  The loop of \<open>sum_pkgs\<close> over \<open>_childs\<close>: the local variables \<open>mark_pkgs\<close> and \<open>logs_pkgs\<close>
  are unbound (\<open>None\<close>) until an instance of the kind is met, and a later instance of
  the same kind overwrites an earlier one.  The source tests the two kinds in two
  successive \<open>if\<close> statements; an instance has one class, so at most one of them
  applies.  After the loop, reading an unbound variable raises \<open>UnboundLocalError\<close>,
  \<open>mark_pkgs\<close> being read first.
\<close>

fun sum_pkgs_loop ::
  "child list \<Rightarrow> (string set \<times> string set) option \<Rightarrow> (string set \<times> string set) option \<Rightarrow>
   error + ((string set \<times> string set) option \<times> (string set \<times> string set) option)" where
  "sum_pkgs_loop [] mark_pkgs logs_pkgs = Inr (mark_pkgs, logs_pkgs)"
| "sum_pkgs_loop (child # rest) mark_pkgs logs_pkgs =
     (if cls child = MarkedPackages then
        (case attrs child of
           None \<Rightarrow> Inl (AttributeError ''pkgs_names'')
         | Some a \<Rightarrow> sum_pkgs_loop rest (Some (pkgs_names a, pkgs_dpnds a)) logs_pkgs)
      else if cls child = LogsPackages then
        (case attrs child of
           None \<Rightarrow> Inl (AttributeError ''pkgs_names'')
         | Some a \<Rightarrow> sum_pkgs_loop rest mark_pkgs (Some (pkgs_names a, pkgs_dpnds a)))
      else sum_pkgs_loop rest mark_pkgs logs_pkgs)"

definition sum_pkgs :: "child list \<Rightarrow> error + (string set \<times> string set)" where
  "sum_pkgs childs =
     (case sum_pkgs_loop childs None None of
        Inl e \<Rightarrow> Inl e
      | Inr (mark_pkgs, logs_pkgs) \<Rightarrow>
          (case mark_pkgs of
             None \<Rightarrow> Inl (UnboundLocalError ''mark_pkgs'')
           | Some mark \<Rightarrow>
               (case logs_pkgs of
                  None \<Rightarrow> Inl (UnboundLocalError ''logs_pkgs'')
                | Some logs \<Rightarrow>
                    (let pkgs_names = fst mark - fst logs;
                         pkgs_dpnds = snd mark - snd logs;
                         pkgs_names = pkgs_names - pkgs_dpnds
                     in Inr (pkgs_names, pkgs_dpnds)))))"

subsection \<open>\<open>PackageManager.struct_pkgs\<close>\<close>

fun struct_pkgs_loop ::
  "child list \<Rightarrow> (string \<rightharpoonup> string set) \<Rightarrow> error + (string \<rightharpoonup> string set)" where
  "struct_pkgs_loop [] result_data = Inr result_data"
| "struct_pkgs_loop (child # rest) result_data =
     (if cls child = SnapPackages then
        (case attrs child of
           None \<Rightarrow> Inl (AttributeError ''pkgs_names'')
         | Some a \<Rightarrow> struct_pkgs_loop rest (result_data(''snap_pkgs'' \<mapsto> pkgs_names a)))
      else struct_pkgs_loop rest result_data)"

definition struct_pkgs :: "child list \<Rightarrow> string set \<Rightarrow> error + (string \<rightharpoonup> string set)" where
  "struct_pkgs childs names =
     (let py_pkgs = Set.filter (\<lambda>pkg. py_in ''pyth'' pkg) names;
          lib_pkgs = Set.filter (\<lambda>pkg. py_in ''lib'' pkg) names;
          lib_pkgs = lib_pkgs - py_pkgs;
          sum_pkgs = names - py_pkgs - lib_pkgs;
          result_data =
            [''gen_pkgs'' \<mapsto> sum_pkgs, ''py_pkgs'' \<mapsto> py_pkgs, ''lib_pkgs'' \<mapsto> lib_pkgs]
      in struct_pkgs_loop childs result_data)"

text \<open>
  The last instance of a kind in the registry, as a specification of what a traversal
  of the registry keeps.
\<close>

definition last_of :: "kind \<Rightarrow> child list \<Rightarrow> child option" where
  "last_of k childs =
     (case filter (\<lambda>c. cls c = k) childs of [] \<Rightarrow> None | x # xs \<Rightarrow> Some (last (x # xs)))"

section \<open>Parsing the command output\<close>

abbreviation NL :: char where
  "NL \<equiv> CHR 0x0A"

text \<open>
  \<open>_run_command\<close> starts a process and decodes its standard output.  The process and
  the operating system are outside the program, so the model takes them as a
  parameter: a function from the argument vector to the decoded output, or to the
  \<open>OSError\<close> (or decoding error) that \<open>subprocess.run\<close> raises.
\<close>

type_synonym shell = "string list \<Rightarrow> error + string"

definition run_command :: "shell \<Rightarrow> string list \<Rightarrow> error + string" where
  "run_command sh command = sh command"

definition separate_all_info :: "string \<Rightarrow> string list" where
  "separate_all_info info = py_split [NL, NL] info"

definition separate_pkg_info :: "string \<Rightarrow> string list" where
  "separate_pkg_info info = py_split [NL] info"

text \<open>
  \<open>_separate_structured_info\<close>: the lines are filtered with the two trigger parameters,
  but what is removed from the first line found is the literal \<open>'Package: '\<close>
  (respectively \<open>'Depends: '\<close>), whatever the triggers are.
\<close>

definition separate_structured_info :: "string list \<Rightarrow> string \<Rightarrow> string \<Rightarrow> string \<times> string" where
  "separate_structured_info info name_trigger depends_trigger =
     (let pkg_name = filter (\<lambda>pkg_line. py_in name_trigger pkg_line) info;
          pkg_name = (if length pkg_name > 0
                      then py_replace ''Package: '' [] (pkg_name ! 0) else []);
          pkg_dpnd = filter (\<lambda>pkg_line. py_in depends_trigger pkg_line) info;
          pkg_dpnd = (if length pkg_dpnd > 0
                      then py_replace ''Depends: '' [] (pkg_dpnd ! 0) else [])
      in (pkg_name, pkg_dpnd))"

text \<open>
  \<open>_parse_dpnds\<close> returns a list, in the order of the entries and with their
  duplicates; the collectors turn it into a set.  \<open>x.split(' ')[0]\<close> is always defined,
  since \<open>split\<close> never returns the empty list.
\<close>

definition parse_dpnds :: "string \<Rightarrow> string list" where
  "parse_dpnds pkg_dpnd =
     (let pkg_dpnd = py_split '', '' (py_strip (py_replace ''|'' [] (py_replace ''Pre-'' [] pkg_dpnd)))
      in map (\<lambda>x. py_split '' '' x ! 0) pkg_dpnd)"

section \<open>The collectors\<close>

definition PKG_NAME_TRIGGER :: string where
  "PKG_NAME_TRIGGER = ''Package: ''"

definition PKG_DEPENDS_TRIGGER :: string where
  "PKG_DEPENDS_TRIGGER = ''Depends: ''"

text \<open>
  The body that the \<open>for\<close> statements of \<open>LogsPackages.main\<close> and \<open>MarkedPackages.main\<close>
  share, from
  the lines \<open>info\<close> of one package record on: the name is appended when it is not empty,
  the parsed dependencies are appended when the raw field is not empty.
\<close>

definition add_pkg_info :: "string list \<Rightarrow> string list \<times> string list \<Rightarrow> string list \<times> string list" where
  "add_pkg_info info acc =
     (let (pkgs_names, pkgs_dpnds) = acc;
          (pkg_name, pkg_dpnd) =
             separate_structured_info info PKG_NAME_TRIGGER PKG_DEPENDS_TRIGGER;
          pkgs_names = (if length pkg_name > 0 then pkgs_names @ [pkg_name] else pkgs_names);
          pkgs_dpnds = (if length pkg_dpnd > 0 then pkgs_dpnds @ parse_dpnds pkg_dpnd
                        else pkgs_dpnds)
      in (pkgs_names, pkgs_dpnds))"

text \<open>The last two statements of every \<open>main\<close>: both lists become sets, and the
  dependencies are subtracted from the names.\<close>

definition store :: "string list \<Rightarrow> string list \<Rightarrow> attrs" where
  "store names dpnds =
     (let names = set names; dpnds = set dpnds;
          names = names - dpnds
      in \<lparr>pkgs_names = names, pkgs_dpnds = dpnds\<rparr>)"

subsection \<open>\<open>LogsPackages\<close>\<close>

definition LogsPackages_PKGS_COMMAND :: "string list" where
  "LogsPackages_PKGS_COMMAND =
     [''gzip'', ''-dc'', ''/var/log/installer/initial-status.gz'', ''|'', ''sort -u'']"

fun LogsPackages_loop :: "string list \<Rightarrow> string list \<times> string list \<Rightarrow> string list \<times> string list" where
  "LogsPackages_loop [] acc = acc"
| "LogsPackages_loop (info # rest) acc =
     LogsPackages_loop rest (add_pkg_info (separate_pkg_info info) acc)"

definition LogsPackages_main :: "shell \<Rightarrow> error + attrs" where
  "LogsPackages_main sh =
     (case run_command sh LogsPackages_PKGS_COMMAND of
        Inl e \<Rightarrow> Inl e
      | Inr pkgs_info \<Rightarrow>
          (let pkgs_info = separate_all_info pkgs_info;
               (names, dpnds) = LogsPackages_loop pkgs_info ([], [])
           in Inr (store names dpnds)))"

subsection \<open>\<open>MarkedPackages\<close>\<close>

definition MarkedPackages_PKGS_COMMAND :: "string list" where
  "MarkedPackages_PKGS_COMMAND = [''apt-mark'', ''showmanual'', ''|'', ''sort -u'']"

definition INFO_COMMAND :: "string list" where
  "INFO_COMMAND = [''apt'', ''show'', ''{pkg_name}'']"

text \<open>
  \<open>command[2].format(pkg_name=pkg_name)\<close> on the template \<open>'{pkg_name}'\<close>: the
  placeholder is replaced by the name, which is not parsed again.
\<close>

definition format_pkg_name :: "string \<Rightarrow> string \<Rightarrow> string" where
  "format_pkg_name template pkg_name =
     (if template = ''{pkg_name}'' then pkg_name else template)"

fun MarkedPackages_loop ::
  "shell \<Rightarrow> string list \<Rightarrow> string list \<times> string list \<Rightarrow> error + (string list \<times> string list)" where
  "MarkedPackages_loop sh [] acc = Inr acc"
| "MarkedPackages_loop sh (pkg_name # rest) acc =
     (let command = INFO_COMMAND;
          command = command[2 := format_pkg_name (command ! 2) pkg_name]
      in case run_command sh command of
           Inl e \<Rightarrow> Inl e
         | Inr info \<Rightarrow> MarkedPackages_loop sh rest (add_pkg_info (separate_pkg_info info) acc))"

definition MarkedPackages_main :: "shell \<Rightarrow> error + attrs" where
  "MarkedPackages_main sh =
     (case run_command sh MarkedPackages_PKGS_COMMAND of
        Inl e \<Rightarrow> Inl e
      | Inr pkgs_pre_names \<Rightarrow>
          (case MarkedPackages_loop sh (separate_pkg_info pkgs_pre_names) ([], []) of
             Inl e \<Rightarrow> Inl e
           | Inr (names, dpnds) \<Rightarrow> Inr (store names dpnds)))"

subsection \<open>\<open>SnapPackages\<close>\<close>

definition SnapPackages_PKGS_COMMAND :: "string list" where
  "SnapPackages_PKGS_COMMAND = [''snap'', ''list'']"

definition IGNORED_PKGS :: "string list" where
  "IGNORED_PKGS =
     [''canonical'', ''core'', ''chromium-ffmpeg'', ''qt513'', ''snapd'', ''ufw'', ''gnome'', ''kde'']"

text \<open>The local function \<open>rm_pkg\<close>: a \<open>for\<close> loop over the ignore list that returns
  \<open>False\<close> at the first entry found in the name, and \<open>True\<close> from its \<open>else\<close> branch.\<close>

fun rm_pkg_loop :: "string list \<Rightarrow> string \<Rightarrow> bool" where
  "rm_pkg_loop [] pkgs = True"
| "rm_pkg_loop (ignored # rest) pkgs =
     (if py_in ignored pkgs then False else rm_pkg_loop rest pkgs)"

definition rm_pkg :: "string \<Rightarrow> bool" where
  "rm_pkg pkgs = rm_pkg_loop IGNORED_PKGS pkgs"

definition SnapPackages_main :: "shell \<Rightarrow> error + attrs" where
  "SnapPackages_main sh =
     (case run_command sh SnapPackages_PKGS_COMMAND of
        Inl e \<Rightarrow> Inl e
      | Inr pkgs_info \<Rightarrow>
          (let pkgs_info = separate_pkg_info pkgs_info;
               pkgs_info = drop 1 pkgs_info;
               pkgs_info = map (\<lambda>pkg. filter (\<lambda>elem. length elem > 0) (py_split '' '' pkg))
                             pkgs_info;
               names = map (\<lambda>pkg. pkg ! 0) (filter (\<lambda>pkg. length pkg > 0) pkgs_info);
               names = filter rm_pkg names;
               dpnds = [''snap-store'']
           in Inr (store names dpnds)))"

section \<open>\<open>PackageManager.save_data\<close>\<close>

text \<open>
  What the operating system and the Python runtime answer is not decided by the
  program, so it is a parameter of the model:
  \<^item> \<open>path_exists\<close>: the answer of \<open>os.path.exists\<close>;
  \<^item> \<open>mkdir\<close>: the error \<open>os.mkdir\<close> raises, if any;
  \<^item> \<open>resolve\<close>: the file that \<open>open(path, 'w')\<close> opens once the folder is there, or the
    error it raises (a missing directory, a directory in place of the file, a name
    that is too long or holds a NUL character, missing rights);
  \<^item> \<open>iteration\<close>: the order in which a \<open>for\<close> statement goes through a set.

  A file is known by what its path resolves to, so two paths that name one file (through
  \<open>..\<close> or a link) have one entry, and the contents are a map from files to text.
  \<open>open(path, 'w')\<close> creates the file or empties it, \<open>file.write\<close> appends to it.  An
  error ends the call; the files written before it stay as they are on the disk, which
  the result \<open>Inl\<close> does not record.  A disk that fills up while writing is outside
  the model.
\<close>

record 'f os_env =
  path_exists :: "string \<Rightarrow> bool"
  mkdir :: "string \<Rightarrow> error option"
  resolve :: "string \<Rightarrow> error + 'f"
  iteration :: "string set \<Rightarrow> string list"

definition BACKUP_FOLDER :: string where
  "BACKUP_FOLDER = ''backlibs''"

definition open_w :: "'f os_env \<Rightarrow> ('f \<rightharpoonup> string) \<Rightarrow> string \<Rightarrow> error + ('f \<times> ('f \<rightharpoonup> string))" where
  "open_w env files p =
     (case resolve env p of
        Inl e \<Rightarrow> Inl e
      | Inr f \<Rightarrow> Inr (f, files(f \<mapsto> [])))"

text \<open>\<open>file.write(v+'\n')\<close> appends to the open file.\<close>

definition file_write :: "('f \<rightharpoonup> string) \<Rightarrow> 'f \<Rightarrow> string \<Rightarrow> ('f \<rightharpoonup> string)" where
  "file_write files f txt =
     files(f \<mapsto> (case files f of None \<Rightarrow> txt | Some old \<Rightarrow> old @ txt))"

fun write_values :: "('f \<rightharpoonup> string) \<Rightarrow> 'f \<Rightarrow> string list \<Rightarrow> ('f \<rightharpoonup> string)" where
  "write_values files f [] = files"
| "write_values files f (v # rest) = write_values (file_write files f (v @ [NL])) f rest"

text \<open>
  \<open>kwargs\<close> is a dictionary, modelled as the list of its items in insertion order; each
  item holds a group key and a set of names.
\<close>

fun save_data_loop ::
  "'f os_env \<Rightarrow> ('f \<rightharpoonup> string) \<Rightarrow> (string \<times> string set) list \<Rightarrow> error + ('f \<rightharpoonup> string)" where
  "save_data_loop env files [] = Inr files"
| "save_data_loop env files ((key, names) # rest) =
     (case open_w env files (BACKUP_FOLDER @ ''/'' @ key @ ''.txt'') of
        Inl e \<Rightarrow> Inl e
      | Inr (f, files') \<Rightarrow>
          save_data_loop env (write_values files' f (iteration env names)) rest)"

definition save_data ::
  "'f os_env \<Rightarrow> ('f \<rightharpoonup> string) \<Rightarrow> (string \<times> string set) list \<Rightarrow> error + ('f \<rightharpoonup> string)" where
  "save_data env files kwargs =
     (if \<not> path_exists env BACKUP_FOLDER then
        (case mkdir env BACKUP_FOLDER of
           Some e \<Rightarrow> Inl e
         | None \<Rightarrow> save_data_loop env files kwargs)
      else save_data_loop env files kwargs)"

section \<open>The function \<open>main\<close>\<close>

text \<open>
  \<open>main\<close> runs once, under \<open>__main__\<close>, so the registry is empty when it starts.  It
  creates one instance of each collector and runs it, in the order Marked, Logs, Snap,
  so the registry holds these three instances, each with its attributes, when
  \<open>sum_pkgs\<close> and \<open>struct_pkgs\<close> read it; an error in a collector ends the run.  The dictionary of \<open>struct_pkgs\<close> gets the two keys \<open>full_pkgs\<close>
  and \<open>full_dpnds\<close> and is passed to \<open>save_data\<close>; \<open>main_kwargs\<close> is that dictionary, as
  the list of its items in insertion order.
\<close>

definition items :: "(string \<rightharpoonup> string set) \<Rightarrow> (string \<times> string set) list" where
  "items d =
     List.map_filter (\<lambda>k. map_option (Pair k) (d k))
       [''gen_pkgs'', ''py_pkgs'', ''lib_pkgs'', ''snap_pkgs'', ''full_pkgs'', ''full_dpnds'']"

definition main_kwargs :: "shell \<Rightarrow> error + (string \<times> string set) list" where
  "main_kwargs sh =
     (case MarkedPackages_main sh of
        Inl e \<Rightarrow> Inl e
      | Inr marked \<Rightarrow>
     (case LogsPackages_main sh of
        Inl e \<Rightarrow> Inl e
      | Inr logs \<Rightarrow>
     (case SnapPackages_main sh of
        Inl e \<Rightarrow> Inl e
      | Inr snap \<Rightarrow>
     (let childs = [\<lparr>cls = MarkedPackages, attrs = Some marked\<rparr>,
                    \<lparr>cls = LogsPackages, attrs = Some logs\<rparr>,
                    \<lparr>cls = SnapPackages, attrs = Some snap\<rparr>]
      in case sum_pkgs childs of
           Inl e \<Rightarrow> Inl e
         | Inr (names, dpnds) \<Rightarrow>
             (case struct_pkgs childs names of
                Inl e \<Rightarrow> Inl e
              | Inr struct \<Rightarrow>
                  Inr (items (struct(''full_pkgs'' \<mapsto> names, ''full_dpnds'' \<mapsto> dpnds))))))))"

definition main :: "shell \<Rightarrow> 'f os_env \<Rightarrow> ('f \<rightharpoonup> string) \<Rightarrow> error + ('f \<rightharpoonup> string)" where
  "main sh env files =
     (case main_kwargs sh of
        Inl e \<Rightarrow> Inl e
      | Inr kwargs \<Rightarrow> save_data env files kwargs)"

section \<open>Reading the files back\<close>

text \<open>
  Modelled from the spec: the script never reads its files back, so the reader of the
  round trip is not in the source.  "Reading line by line" yields the pieces that end
  in a line feed, and a last piece without one when it is not empty.
\<close>

definition read_lines :: "string \<Rightarrow> string list" where
  "read_lines txt =
     (let ls = py_split [NL] txt in if last ls = [] then butlast ls else ls)"

section \<open>Notions used to state the properties\<close>

definition as_pair :: "attrs \<Rightarrow> string set \<times> string set" where
  "as_pair a = (pkgs_names a, pkgs_dpnds a)"

text \<open>The set bound to a group key in the result of \<open>struct_pkgs\<close>, if the call returned
  and the key is there.\<close>

definition group_of :: "error + (string \<rightharpoonup> string set) \<Rightarrow> string \<Rightarrow> string set option" where
  "group_of r k = (case r of Inl e \<Rightarrow> None | Inr m \<Rightarrow> m k)"

text \<open>
  The first column of a line of a table whose columns are separated by runs of the
  characters \<open>sep\<close>: what stands between the leading separators and the next separator;
  a line of separators only has no column.
\<close>

definition first_column :: "(char \<Rightarrow> bool) \<Rightarrow> string \<Rightarrow> string option" where
  "first_column sep line =
     (let rest = dropWhile sep line
      in if rest = [] then None else Some (takeWhile (\<lambda>c. \<not> sep c) rest))"

text \<open>
  The names of a snap listing as the specification words them, for a given notion of
  column separator: the header line is skipped, the first column of every other line
  is a name, a name in which an entry of the ignore list occurs is dropped, and the
  placeholder dependency is subtracted.
\<close>

definition listed_names :: "(char \<Rightarrow> bool) \<Rightarrow> string \<Rightarrow> string set" where
  "listed_names sep raw =
     set (filter (\<lambda>n. list_all (\<lambda>ignored. \<not> py_in ignored n) IGNORED_PKGS)
            (List.map_filter (first_column sep) (drop 1 (py_split [NL] raw))))
       - {''snap-store''}"

text \<open>The names a collector stored, if its \<open>main\<close> returned.\<close>

definition names_of :: "error + attrs \<Rightarrow> string set option" where
  "names_of r = (case r of Inl e \<Rightarrow> None | Inr a \<Rightarrow> Some (pkgs_names a))"

text \<open>The file that \<open>save_data\<close> writes for a group key, and the set of lines a reader
  who opens the same path finds in it after a call that returned.\<close>

definition backup_path :: "string \<Rightarrow> string" where
  "backup_path key = BACKUP_FOLDER @ ''/'' @ key @ ''.txt''"

definition read_back ::
  "'f os_env \<Rightarrow> error + ('f \<rightharpoonup> string) \<Rightarrow> string \<Rightarrow> string set option" where
  "read_back env r key =
     (case r of
        Inl e \<Rightarrow> None
      | Inr files \<Rightarrow>
          (case resolve env (backup_path key) of
             Inl e \<Rightarrow> None
           | Inr f \<Rightarrow> map_option (\<lambda>txt. set (read_lines txt)) (files f)))"

text \<open>\<open>sep.join(pieces)\<close>: the pieces with \<open>sep\<close> between them.\<close>

fun join :: "string \<Rightarrow> string list \<Rightarrow> string" where
  "join sep [] = []"
| "join sep [p] = p"
| "join sep (p # q # ps) = p @ sep @ join sep (q # ps)"

text \<open>
  A string has no border when none of its proper non-empty prefixes is also a suffix
  of it; two occurrences of such a string cannot overlap.
\<close>

definition border_free :: "string \<Rightarrow> bool" where
  "border_free sep =
     list_all (\<lambda>k. take k sep \<noteq> drop (length sep - k) sep) [1..<length sep]"

text \<open>
  The extraction as the specification words it: the first line that contains the
  trigger, with the trigger stripped when it is a prefix of the line, and the empty
  string when no line contains the trigger.
\<close>

definition stripped_prefix :: "string \<Rightarrow> string \<Rightarrow> string" where
  "stripped_prefix trigger line =
     (if startswith line trigger then drop (length trigger) line else line)"

definition extract_spec :: "string list \<Rightarrow> string \<Rightarrow> string \<Rightarrow> string \<times> string" where
  "extract_spec lines name_trigger depends_trigger =
     ((case filter (py_in name_trigger) lines of
         [] \<Rightarrow> [] | l # ls \<Rightarrow> stripped_prefix name_trigger l),
      (case filter (py_in depends_trigger) lines of
         [] \<Rightarrow> [] | l # ls \<Rightarrow> stripped_prefix depends_trigger l))"

text \<open>
  An example of what the commands may print: two records in the installer log, two
  manually installed packages with their \<open>apt show\<close> records, and a snap listing.  The
  package \<open>libc6\<close> is a name and a dependency in the log and in the marked packages,
  and the snap \<open>snap-store\<close> is listed.
\<close>

definition example_shell :: shell where
  "example_shell command =
     (if command = SnapPackages_PKGS_COMMAND then
        Inr (''Name        Version  Rev'' @ [NL] @ ''snap-store  41.3     959'' @ [NL] @
             ''vlc         3.0.18   3078'' @ [NL])
      else if command = MarkedPackages_PKGS_COMMAND then
        Inr (''libc6'' @ [NL] @ ''git'')
      else if command = [''apt'', ''show'', ''libc6''] then
        Inr (''Package: libc6'' @ [NL] @ ''Version: 2.31'')
      else if command = [''apt'', ''show'', ''git''] then
        Inr (''Package: git'' @ [NL] @ ''Depends: libc6 (>= 2.0), vim'')
      else if command = LogsPackages_PKGS_COMMAND then
        Inr (''Package: libc6'' @ [NL] @ ''Depends: libc6, vim'' @ [NL] @ [NL] @
             ''Package: git'' @ [NL] @ ''Depends: libc6'')
      else Inl (OSError ''command not found''))"

section \<open>Properties\<close>

subsection \<open>Facts about the string primitives\<close>

lemma startswith_iff: "startswith s pre \<longleftrightarrow> (\<exists>b. s = pre @ b)"
  unfolding startswith_def
  by (metis append_eq_conv_conj append_take_drop_id)

lemma py_in_iff: "py_in sub s \<longleftrightarrow> (\<exists>a b. s = a @ sub @ b)"
proof (induction s)
  case Nil
  show ?case by auto
next
  case (Cons c cs)
  show ?case
  proof
    assume "py_in sub (c # cs)"
    then consider "startswith (c # cs) sub" | "py_in sub cs" by auto
    then show "\<exists>a b. c # cs = a @ sub @ b"
    proof cases
      case 1
      then obtain b where "c # cs = sub @ b" by (auto simp: startswith_iff)
      then have "c # cs = [] @ sub @ b" by simp
      then show ?thesis by blast
    next
      case 2
      then obtain a b where "cs = a @ sub @ b" using Cons.IH by blast
      then have "c # cs = (c # a) @ sub @ b" by simp
      then show ?thesis by blast
    qed
  next
    assume "\<exists>a b. c # cs = a @ sub @ b"
    then obtain a b where ab: "c # cs = a @ sub @ b" by blast
    show "py_in sub (c # cs)"
    proof (cases a)
      case Nil
      with ab have "startswith (c # cs) sub" by (auto simp: startswith_iff)
      then show ?thesis by simp
    next
      case (Cons x xs)
      with ab have "cs = xs @ sub @ b" by simp
      then have "py_in sub cs" using Cons.IH by blast
      then show ?thesis by simp
    qed
  qed
qed

lemma py_split_not_Nil: "py_split sep s \<noteq> []"
  by (induction sep s rule: py_split.induct) (auto split: list.splits)

lemma py_split_space_hd: "py_split '' '' x ! 0 = takeWhile (\<lambda>c. c \<noteq> CHR '' '') x"
  by (induction x) (auto simp: startswith_def py_split_not_Nil split: list.splits)

lemma py_replace_char: "py_replace [d] [] s = filter (\<lambda>c. c \<noteq> d) s"
  by (induction s) (auto simp: startswith_def)

lemma py_split_NL_line:
  "NL \<notin> set v \<Longrightarrow> py_split [NL] (v @ NL # rest) = v # py_split [NL] rest"
  by (induction v) (auto simp: startswith_def split: list.splits)

lemma py_split_NL_lines:
  "\<forall>v\<in>set vs. NL \<notin> set v \<Longrightarrow> py_split [NL] (concat (map (\<lambda>v. v @ [NL]) vs)) = vs @ [[]]"
  by (induction vs) (auto simp: py_split_NL_line)

lemma read_lines_written:
  "\<forall>v\<in>set vs. NL \<notin> set v \<Longrightarrow> read_lines (concat (map (\<lambda>v. v @ [NL]) vs)) = vs"
  by (simp add: read_lines_def py_split_NL_lines)



subsection \<open>Splitting and deleting at a separator without border\<close>

lemma border_freeD:
  assumes "border_free sep" and "0 < k" and "k < length sep"
  shows "take k sep \<noteq> drop (length sep - k) sep"
proof -
  from assms(2,3) have "k \<in> set [1..<length sep]" by simp
  with assms(1) show ?thesis
    unfolding border_free_def list_all_iff by blast
qed

lemma not_startswith_before_sep:
  assumes bf: "border_free sep" and p: "p \<noteq> []" and no: "\<not> py_in sep p"
  shows "\<not> startswith (p @ sep @ rest) sep"
proof
  assume s: "startswith (p @ sep @ rest) sep"
  then have t: "take (length sep) (p @ sep @ rest) = sep" by (simp add: startswith_def)
  show False
  proof (cases "length sep \<le> length p")
    case True
    with t have "take (length sep) p = sep" by simp
    then have "startswith p sep" by (simp add: startswith_def)
    with p have "py_in sep p" by (cases p) auto
    with no show False by simp
  next
    case False
    define k where "k = length sep - length p"
    from False p have k: "0 < k" "k < length sep" by (cases p; simp add: k_def)+
    from False t have "p @ take k sep = sep" by (simp add: k_def)
    then have "drop (length p) sep = take k sep"
      by (metis append_eq_conv_conj)
    moreover from False have "length p = length sep - k" by (simp add: k_def)
    ultimately have "take k sep = drop (length sep - k) sep" by simp
    with border_freeD [OF bf k] show False by simp
  qed
qed

lemma py_replace_piece:
  assumes "border_free sep" and "sep \<noteq> []" and "\<not> py_in sep p"
  shows "py_replace sep [] (p @ sep @ rest) = p @ py_replace sep [] rest"
  using assms(3)
proof (induction p)
  case Nil
  from assms(2) obtain c cs where c: "sep @ rest = c # cs" by (cases sep) auto
  have "startswith (sep @ rest) sep" by (simp add: startswith_def)
  with c assms(2) have "py_replace sep [] (c # cs) = py_replace sep [] (drop (length sep) (c # cs))"
    by simp
  with c show ?case by (metis append_Nil append_eq_conv_conj)
next
  case (Cons c p)
  from Cons.prems have "\<not> py_in sep p" by simp
  with Cons.IH have ih: "py_replace sep [] (p @ sep @ rest) = p @ py_replace sep [] rest" by simp
  from not_startswith_before_sep [OF assms(1) _ Cons.prems, of rest]
  have "\<not> startswith (c # p @ sep @ rest) sep" by simp
  with assms(2) ih show ?case by simp
qed

lemma py_replace_absent:
  "sep \<noteq> [] \<Longrightarrow> \<not> py_in sep s \<Longrightarrow> py_replace sep [] s = s"
  by (induction s) auto

lemma py_replace_join:
  assumes "border_free sep" and "sep \<noteq> []"
  shows "\<forall>p\<in>set ps. \<not> py_in sep p \<Longrightarrow> py_replace sep [] (join sep ps) = concat ps"
proof (induction ps rule: induct_list012)
  case 1
  from assms(2) show ?case by simp
next
  case (2 p)
  then show ?case using assms(2) by (simp add: py_replace_absent)
next
  case (3 p q ps)
  then show ?case using assms by (simp add: py_replace_piece)
qed

lemma py_split_piece:
  assumes "border_free sep" and "sep \<noteq> []" and "\<not> py_in sep p"
  shows "py_split sep (p @ sep @ rest) = p # py_split sep rest"
  using assms(3)
proof (induction p)
  case Nil
  from assms(2) obtain c cs where c: "sep @ rest = c # cs" by (cases sep) auto
  have "startswith (sep @ rest) sep" by (simp add: startswith_def)
  with c assms(2) have "py_split sep (c # cs) = [] # py_split sep (drop (length sep) (c # cs))"
    by simp
  with c show ?case by (metis append_Nil append_eq_conv_conj)
next
  case (Cons c p)
  from Cons.prems have "\<not> py_in sep p" by simp
  with Cons.IH have ih: "py_split sep (p @ sep @ rest) = p # py_split sep rest" by simp
  from not_startswith_before_sep [OF assms(1) _ Cons.prems, of rest]
  have "\<not> startswith (c # p @ sep @ rest) sep" by simp
  with ih show ?case by simp
qed

lemma py_split_absent: "\<not> py_in sep s \<Longrightarrow> py_split sep s = [s]"
  by (induction s) auto

lemma py_split_join:
  assumes "border_free sep" and "sep \<noteq> []"
  shows "ps \<noteq> [] \<Longrightarrow> \<forall>p\<in>set ps. \<not> py_in sep p \<Longrightarrow> py_split sep (join sep ps) = ps"
proof (induction ps rule: induct_list012)
  case 1
  then show ?case by simp
next
  case (2 p)
  then show ?case by (simp add: py_split_absent)
next
  case (3 p q ps)
  then show ?case using assms by (simp add: py_split_piece)
qed

lemma join_py_split: "sep \<noteq> [] \<Longrightarrow> join sep (py_split sep s) = s"
proof (induction sep s rule: py_split.induct)
  case (1 sep)
  show ?case by simp
next
  case (2 sep c cs)
  show ?case
  proof (cases "startswith (c # cs) sep")
    case True
    obtain w ws where w: "py_split sep (drop (length sep) (c # cs)) = w # ws"
      using py_split_not_Nil [of sep "drop (length sep) (c # cs)"]
      by (cases "py_split sep (drop (length sep) (c # cs))") auto
    from True have "sep @ drop (length sep) (c # cs) = c # cs"
      by (metis append_take_drop_id startswith_def)
    moreover from 2(1) 2(3) True w have "join sep (w # ws) = drop (length sep) (c # cs)" by simp
    ultimately show ?thesis using True 2(3) w by simp
  next
    case False
    obtain w ws where w: "py_split sep cs = w # ws"
      using py_split_not_Nil [of sep cs] by (cases "py_split sep cs") auto
    from 2(2) 2(3) False w have "join sep (w # ws) = cs" by simp
    then have "join sep ((c # w) # ws) = c # cs" by (cases ws) auto
    with False w show ?thesis by simp
  qed
qed

lemma py_strip_spec:
  assumes "list_all isspace l" and "list_all isspace r"
    and "t = [] \<or> (\<not> isspace (hd t) \<and> \<not> isspace (last t))"
  shows "py_strip (l @ t @ r) = t"
proof (cases "t = []")
  case True
  with assms(1,2) have "\<forall>x\<in>set (l @ t @ r). isspace x"
    by (auto simp: list_all_iff)
  then have d: "dropWhile isspace (l @ t @ r) = []"
    by (simp only: dropWhile_eq_Nil_conv)
  show ?thesis unfolding py_strip_def d using True by simp
next
  case False
  with assms(3) have h: "\<not> isspace (hd t)" and e: "\<not> isspace (last t)" by simp_all
  from False h have "dropWhile isspace (t @ r) = t @ r" by (cases t) auto
  with assms(1) have 1: "dropWhile isspace (l @ t @ r) = t @ r"
    by (simp add: dropWhile_append2 list_all_iff)
  from False e have "dropWhile isspace (rev t) = rev t" by (cases "rev t") (auto simp: last_rev)
  moreover have "dropWhile isspace (rev r @ rev t) = dropWhile isspace (rev t)"
    using assms(2) by (intro dropWhile_append2) (simp add: list_all_iff)
  ultimately have "dropWhile isspace (rev (t @ r)) = rev t" by simp
  with 1 show ?thesis by (simp add: py_strip_def)
qed

lemma isspace_chars:
  "isspace c \<longleftrightarrow>
     c \<in> {CHR 0x09, CHR 0x0A, CHR 0x0B, CHR 0x0C, CHR 0x0D, CHR 0x1C, CHR 0x1D, CHR 0x1E,
           CHR 0x1F, CHR '' '', CHR 0x85, CHR 0xA0}"
proof -
  have n: "(9::nat) = of_char (CHR 0x09)" "(10::nat) = of_char (CHR 0x0A)"
    "(11::nat) = of_char (CHR 0x0B)" "(12::nat) = of_char (CHR 0x0C)"
    "(13::nat) = of_char (CHR 0x0D)" "(28::nat) = of_char (CHR 0x1C)"
    "(29::nat) = of_char (CHR 0x1D)" "(30::nat) = of_char (CHR 0x1E)"
    "(31::nat) = of_char (CHR 0x1F)" "(32::nat) = of_char (CHR '' '')"
    "(133::nat) = of_char (CHR 0x85)" "(160::nat) = of_char (CHR 0xA0)"
    by simp_all
  have "isspace c \<longleftrightarrow> (of_char c :: nat) \<in> {9, 10, 11, 12, 13, 28, 29, 30, 31, 32, 133, 160}"
    by (simp add: isspace_def)
  also have "\<dots> \<longleftrightarrow> c \<in> {CHR 0x09, CHR 0x0A, CHR 0x0B, CHR 0x0C, CHR 0x0D, CHR 0x1C, CHR 0x1D,
                          CHR 0x1E, CHR 0x1F, CHR '' '', CHR 0x85, CHR 0xA0}"
    unfolding n by (simp only: of_char_eq_iff insert_iff empty_iff)
  finally show ?thesis .
qed

subsection \<open>The registry and the reconciliation\<close>

lemma new_appends: "snd (new k childs) = childs @ [fst (new k childs)]"
  by (simp add: new_def Let_def)

lemma last_of_Nil: "last_of k [] = None"
  by (simp add: last_of_def)

lemma last_of_Cons:
  "last_of k (c # cs) =
     (case last_of k cs of Some d \<Rightarrow> Some d | None \<Rightarrow> if cls c = k then Some c else None)"
  by (auto simp: last_of_def split: list.splits)

lemma last_of_mem: "last_of k cs = Some c \<Longrightarrow> c \<in> set cs \<and> cls c = k"
  by (induction cs) (auto simp: last_of_Nil last_of_Cons split: option.splits if_splits)


lemma sum_pkgs_loop_ok:
  "\<forall>c\<in>set childs. cls c \<in> {MarkedPackages, LogsPackages} \<longrightarrow> attrs c \<noteq> None \<Longrightarrow>
   sum_pkgs_loop childs mark logs =
     Inr (case last_of MarkedPackages childs of None \<Rightarrow> mark | Some c \<Rightarrow> map_option as_pair (attrs c),
          case last_of LogsPackages childs of None \<Rightarrow> logs | Some c \<Rightarrow> map_option as_pair (attrs c))"
proof (induction childs arbitrary: mark logs)
  case Nil
  show ?case by (simp add: last_of_Nil)
next
  case (Cons c cs)
  then show ?case
    by (auto simp: last_of_Cons as_pair_def split: option.splits)
qed


lemma sum_pkgs_loop_mark_unbound:
  "sum_pkgs_loop childs mark logs = Inr (m', l') \<Longrightarrow>
   \<forall>c\<in>set childs. cls c = MarkedPackages \<longrightarrow> attrs c = None \<Longrightarrow> m' = mark"
  by (induction childs arbitrary: mark logs) (auto split: if_splits option.splits)

lemma sum_pkgs_loop_logs_unbound:
  "sum_pkgs_loop childs mark logs = Inr (m', l') \<Longrightarrow>
   \<forall>c\<in>set childs. cls c = LogsPackages \<longrightarrow> attrs c = None \<Longrightarrow> l' = logs"
  by (induction childs arbitrary: mark logs) (auto split: if_splits option.splits)

lemma struct_pkgs_loop_ok:
  "\<forall>c\<in>set childs. cls c = SnapPackages \<longrightarrow> attrs c \<noteq> None \<Longrightarrow>
   struct_pkgs_loop childs rd =
     Inr (case last_of SnapPackages childs of
            None \<Rightarrow> rd
          | Some c \<Rightarrow> rd(''snap_pkgs'' \<mapsto> pkgs_names (the (attrs c))))"
proof (induction childs arbitrary: rd)
  case Nil
  show ?case by (simp add: last_of_Nil)
next
  case (Cons c cs)
  then show ?case
    by (auto simp: last_of_Cons split: option.splits)
qed

lemma filter_single_last_of: "filter (\<lambda>c. cls c = k) childs = [x] \<Longrightarrow> last_of k childs = Some x"
  by (simp add: last_of_def)

text \<open>
  C1.  When the registry holds results of both kinds, \<open>sum_pkgs\<close> returns the names of
  the last Marked instance minus those of the last Logs instance, with the returned
  dependencies subtracted, and as dependencies those of the Marked instance minus
  those of the Logs instance.  For the names \<open>{bash, vim, python3-foo}\<close> and the
  dependency \<open>coreutils\<close> marked, and the names \<open>{bash, coreutils}\<close> logged without
  dependencies, the names returned are \<open>{vim, python3-foo}\<close>.
\<close>

theorem sum_pkgs_reconciles:
  "(last_of MarkedPackages childs = Some m \<and> attrs m = Some marked \<and>
    last_of LogsPackages childs = Some l \<and> attrs l = Some logs \<and>
    (\<forall>c\<in>set childs. cls c \<in> {MarkedPackages, LogsPackages} \<longrightarrow> attrs c \<noteq> None)
    \<longrightarrow> sum_pkgs childs =
          Inr ((pkgs_names marked - pkgs_names logs) - (pkgs_dpnds marked - pkgs_dpnds logs),
               pkgs_dpnds marked - pkgs_dpnds logs))
   \<and> sum_pkgs
       [\<lparr>cls = MarkedPackages,
         attrs = Some \<lparr>pkgs_names = {''bash'', ''vim'', ''python3-foo''}, pkgs_dpnds = {''coreutils''}\<rparr>\<rparr>,
        \<lparr>cls = LogsPackages,
         attrs = Some \<lparr>pkgs_names = {''bash'', ''coreutils''}, pkgs_dpnds = {}\<rparr>\<rparr>]
     = Inr ({''vim'', ''python3-foo''}, {''coreutils''})"
proof (intro conjI impI)
  assume h: "last_of MarkedPackages childs = Some m \<and> attrs m = Some marked \<and>
    last_of LogsPackages childs = Some l \<and> attrs l = Some logs \<and>
    (\<forall>c\<in>set childs. cls c \<in> {MarkedPackages, LogsPackages} \<longrightarrow> attrs c \<noteq> None)"
  then have "sum_pkgs_loop childs None None = Inr (Some (as_pair marked), Some (as_pair logs))"
    by (simp add: sum_pkgs_loop_ok)
  then show "sum_pkgs childs =
          Inr ((pkgs_names marked - pkgs_names logs) - (pkgs_dpnds marked - pkgs_dpnds logs),
               pkgs_dpnds marked - pkgs_dpnds logs)"
    by (simp add: sum_pkgs_def as_pair_def Let_def)
next
  show "sum_pkgs
       [\<lparr>cls = MarkedPackages,
         attrs = Some \<lparr>pkgs_names = {''bash'', ''vim'', ''python3-foo''}, pkgs_dpnds = {''coreutils''}\<rparr>\<rparr>,
        \<lparr>cls = LogsPackages,
         attrs = Some \<lparr>pkgs_names = {''bash'', ''coreutils''}, pkgs_dpnds = {}\<rparr>\<rparr>]
     = Inr ({''vim'', ''python3-foo''}, {''coreutils''})"
    by (simp add: sum_pkgs_def Let_def)
qed

theorem sum_pkgs_reconciles_witness:
  "sum_pkgs
     [\<lparr>cls = SnapPackages, attrs = None\<rparr>,
      \<lparr>cls = LogsPackages, attrs = Some \<lparr>pkgs_names = {''a''}, pkgs_dpnds = {''b''}\<rparr>\<rparr>,
      \<lparr>cls = MarkedPackages, attrs = Some \<lparr>pkgs_names = {''a'', ''c'', ''d''}, pkgs_dpnds = {''b'', ''d''}\<rparr>\<rparr>]
   = Inr ({''c''}, {''d''})"
  using sum_pkgs_reconciles
    [of "[\<lparr>cls = SnapPackages, attrs = None\<rparr>,
      \<lparr>cls = LogsPackages, attrs = Some \<lparr>pkgs_names = {''a''}, pkgs_dpnds = {''b''}\<rparr>\<rparr>,
      \<lparr>cls = MarkedPackages, attrs = Some \<lparr>pkgs_names = {''a'', ''c'', ''d''}, pkgs_dpnds = {''b'', ''d''}\<rparr>\<rparr>]"
        "\<lparr>cls = MarkedPackages, attrs = Some \<lparr>pkgs_names = {''a'', ''c'', ''d''}, pkgs_dpnds = {''b'', ''d''}\<rparr>\<rparr>"
        "\<lparr>pkgs_names = {''a'', ''c'', ''d''}, pkgs_dpnds = {''b'', ''d''}\<rparr>"
        "\<lparr>cls = LogsPackages, attrs = Some \<lparr>pkgs_names = {''a''}, pkgs_dpnds = {''b''}\<rparr>\<rparr>"
        "\<lparr>pkgs_names = {''a''}, pkgs_dpnds = {''b''}\<rparr>"]
  by (simp add: last_of_def) auto

subsection \<open>The classifier\<close>

lemma struct_pkgs_group:
  assumes "\<forall>c\<in>set childs. cls c = SnapPackages \<longrightarrow> attrs c \<noteq> None"
    and "k \<noteq> ''snap_pkgs''"
  shows "group_of (struct_pkgs childs names) k =
     [''gen_pkgs'' \<mapsto> names - Set.filter (py_in ''pyth'') names
                       - (Set.filter (py_in ''lib'') names - Set.filter (py_in ''pyth'') names),
      ''py_pkgs'' \<mapsto> Set.filter (py_in ''pyth'') names,
      ''lib_pkgs'' \<mapsto> Set.filter (py_in ''lib'') names - Set.filter (py_in ''pyth'') names] k"
  using assms
  by (simp add: struct_pkgs_def Let_def struct_pkgs_loop_ok group_of_def split: option.splits)

lemma struct_pkgs_snap:
  assumes "\<forall>c\<in>set childs. cls c = SnapPackages \<longrightarrow> attrs c \<noteq> None"
  shows "group_of (struct_pkgs childs names) ''snap_pkgs'' =
     (case last_of SnapPackages childs of None \<Rightarrow> None | Some c \<Rightarrow> map_option pkgs_names (attrs c))"
proof (cases "last_of SnapPackages childs")
  case None
  with assms show ?thesis
    by (simp add: struct_pkgs_def Let_def struct_pkgs_loop_ok group_of_def)
next
  case (Some c)
  then have "c \<in> set childs \<and> cls c = SnapPackages" by (rule last_of_mem)
  with assms obtain a where "attrs c = Some a" by auto
  with assms Some show ?thesis
    by (simp add: struct_pkgs_def Let_def struct_pkgs_loop_ok group_of_def)
qed


lemma filter_sets:
  "{n \<in> A. p n} - {n \<in> A. q n} = {n \<in> A. p n \<and> \<not> q n}"
  "A - {n \<in> A. q n} - {n \<in> A. p n \<and> \<not> q n} = {n \<in> A. \<not> q n \<and> \<not> p n}"
  by auto

text \<open>
  C2.  When \<open>struct_pkgs\<close> returns (every Snap instance of the registry has its
  attributes), \<open>py_pkgs\<close> is bound to the names in which \<open>pyth\<close> occurs, \<open>lib_pkgs\<close> to the
  other names in which \<open>lib\<close> occurs, \<open>gen_pkgs\<close> to the rest; the three sets are pairwise
  disjoint and their union is the set of names given.  The names
  \<open>{vim, python3-foo, libssl-dev}\<close> give \<open>{python3-foo}\<close>, \<open>{libssl-dev}\<close> and \<open>{vim}\<close>.
\<close>

theorem struct_pkgs_partition:
  "((\<forall>c\<in>set childs. cls c = SnapPackages \<longrightarrow> attrs c \<noteq> None) \<longrightarrow>
      (\<exists>py lib gen.
         group_of (struct_pkgs childs names) ''py_pkgs'' = Some py \<and>
         group_of (struct_pkgs childs names) ''lib_pkgs'' = Some lib \<and>
         group_of (struct_pkgs childs names) ''gen_pkgs'' = Some gen \<and>
         py = {n \<in> names. \<exists>a b. n = a @ ''pyth'' @ b} \<and>
         lib = {n \<in> names. (\<exists>a b. n = a @ ''lib'' @ b) \<and> \<not> (\<exists>a b. n = a @ ''pyth'' @ b)} \<and>
         gen = {n \<in> names. \<not> (\<exists>a b. n = a @ ''pyth'' @ b) \<and> \<not> (\<exists>a b. n = a @ ''lib'' @ b)} \<and>
         py \<inter> lib = {} \<and> py \<inter> gen = {} \<and> lib \<inter> gen = {} \<and>
         py \<union> lib \<union> gen = names))
   \<and> group_of (struct_pkgs [] {''vim'', ''python3-foo'', ''libssl-dev''}) ''py_pkgs''
       = Some {''python3-foo''}
   \<and> group_of (struct_pkgs [] {''vim'', ''python3-foo'', ''libssl-dev''}) ''lib_pkgs''
       = Some {''libssl-dev''}
   \<and> group_of (struct_pkgs [] {''vim'', ''python3-foo'', ''libssl-dev''}) ''gen_pkgs''
       = Some {''vim''}"
proof -
  have "(\<forall>c\<in>set childs. cls c = SnapPackages \<longrightarrow> attrs c \<noteq> None) \<longrightarrow>
      (\<exists>py lib gen.
         group_of (struct_pkgs childs names) ''py_pkgs'' = Some py \<and>
         group_of (struct_pkgs childs names) ''lib_pkgs'' = Some lib \<and>
         group_of (struct_pkgs childs names) ''gen_pkgs'' = Some gen \<and>
         py = {n \<in> names. py_in ''pyth'' n} \<and>
         lib = {n \<in> names. py_in ''lib'' n \<and> \<not> py_in ''pyth'' n} \<and>
         gen = {n \<in> names. \<not> py_in ''pyth'' n \<and> \<not> py_in ''lib'' n} \<and>
         py \<inter> lib = {} \<and> py \<inter> gen = {} \<and> lib \<inter> gen = {} \<and>
         py \<union> lib \<union> gen = names)"
  proof
    assume h: "\<forall>c\<in>set childs. cls c = SnapPackages \<longrightarrow> attrs c \<noteq> None"
    let ?py = "{n \<in> names. py_in ''pyth'' n}"
    let ?lib = "{n \<in> names. py_in ''lib'' n \<and> \<not> py_in ''pyth'' n}"
    let ?gen = "{n \<in> names. \<not> py_in ''pyth'' n \<and> \<not> py_in ''lib'' n}"
    have 1: "group_of (struct_pkgs childs names) ''py_pkgs'' = Some ?py"
      using struct_pkgs_group [OF h, of "''py_pkgs''" names]
      by (simp add: filter_sets)
    have 2: "group_of (struct_pkgs childs names) ''lib_pkgs'' = Some ?lib"
      using struct_pkgs_group [OF h, of "''lib_pkgs''" names]
      by (simp add: filter_sets)
    have 3: "group_of (struct_pkgs childs names) ''gen_pkgs'' = Some ?gen"
      using struct_pkgs_group [OF h, of "''gen_pkgs''" names]
      by (simp add: filter_sets)
    have 4: "?py \<inter> ?lib = {} \<and> ?py \<inter> ?gen = {} \<and> ?lib \<inter> ?gen = {} \<and> ?py \<union> ?lib \<union> ?gen = names"
      by blast
    from 1 2 3 4 show "\<exists>py lib gen.
         group_of (struct_pkgs childs names) ''py_pkgs'' = Some py \<and>
         group_of (struct_pkgs childs names) ''lib_pkgs'' = Some lib \<and>
         group_of (struct_pkgs childs names) ''gen_pkgs'' = Some gen \<and>
         py = {n \<in> names. py_in ''pyth'' n} \<and>
         lib = {n \<in> names. py_in ''lib'' n \<and> \<not> py_in ''pyth'' n} \<and>
         gen = {n \<in> names. \<not> py_in ''pyth'' n \<and> \<not> py_in ''lib'' n} \<and>
         py \<inter> lib = {} \<and> py \<inter> gen = {} \<and> lib \<inter> gen = {} \<and>
         py \<union> lib \<union> gen = names"
      by blast
  qed
  moreover have "group_of (struct_pkgs [] {''vim'', ''python3-foo'', ''libssl-dev''}) ''py_pkgs''
       = Some {''python3-foo''}"
    by code_simp
  moreover have "group_of (struct_pkgs [] {''vim'', ''python3-foo'', ''libssl-dev''}) ''lib_pkgs''
       = Some {''libssl-dev''}"
    by code_simp
  moreover have "group_of (struct_pkgs [] {''vim'', ''python3-foo'', ''libssl-dev''}) ''gen_pkgs''
       = Some {''vim''}"
    by code_simp
  ultimately show ?thesis
    unfolding py_in_iff by blast
qed


theorem struct_pkgs_partition_witness:
  "\<exists>py lib gen.
     group_of (struct_pkgs [\<lparr>cls = SnapPackages, attrs = Some \<lparr>pkgs_names = {''x''}, pkgs_dpnds = {}\<rparr>\<rparr>]
                 {''libpython3'', ''libc6'', ''git''}) ''py_pkgs'' = Some py \<and>
     group_of (struct_pkgs [\<lparr>cls = SnapPackages, attrs = Some \<lparr>pkgs_names = {''x''}, pkgs_dpnds = {}\<rparr>\<rparr>]
                 {''libpython3'', ''libc6'', ''git''}) ''lib_pkgs'' = Some lib \<and>
     group_of (struct_pkgs [\<lparr>cls = SnapPackages, attrs = Some \<lparr>pkgs_names = {''x''}, pkgs_dpnds = {}\<rparr>\<rparr>]
                 {''libpython3'', ''libc6'', ''git''}) ''gen_pkgs'' = Some gen \<and>
     py = {n \<in> {''libpython3'', ''libc6'', ''git''}. \<exists>a b. n = a @ ''pyth'' @ b} \<and>
     lib = {n \<in> {''libpython3'', ''libc6'', ''git''}.
             (\<exists>a b. n = a @ ''lib'' @ b) \<and> \<not> (\<exists>a b. n = a @ ''pyth'' @ b)} \<and>
     gen = {n \<in> {''libpython3'', ''libc6'', ''git''}.
             \<not> (\<exists>a b. n = a @ ''pyth'' @ b) \<and> \<not> (\<exists>a b. n = a @ ''lib'' @ b)} \<and>
     py \<inter> lib = {} \<and> py \<inter> gen = {} \<and> lib \<inter> gen = {} \<and>
     py \<union> lib \<union> gen = {''libpython3'', ''libc6'', ''git''}"
  by (rule struct_pkgs_partition
        [of "[\<lparr>cls = SnapPackages, attrs = Some \<lparr>pkgs_names = {''x''}, pkgs_dpnds = {}\<rparr>\<rparr>]"
            "{''libpython3'', ''libc6'', ''git''}", THEN conjunct1, THEN mp])
    simp

subsection \<open>Missing and repeated instances\<close>

text \<open>
  C7.  When no Marked instance of the registry has a result, or no Logs instance has
  one, \<open>sum_pkgs\<close> raises; when there is exactly one instance of each kind and both have
  their results, it returns.
\<close>

theorem sum_pkgs_needs_both:
  "(((\<forall>c\<in>set childs. cls c = MarkedPackages \<longrightarrow> attrs c = None) \<or>
     (\<forall>c\<in>set childs. cls c = LogsPackages \<longrightarrow> attrs c = None))
      \<longrightarrow> (\<exists>e. sum_pkgs childs = Inl e))
   \<and> (filter (\<lambda>c. cls c = MarkedPackages) childs = [m] \<and> attrs m \<noteq> None \<and>
      filter (\<lambda>c. cls c = LogsPackages) childs = [l] \<and> attrs l \<noteq> None
      \<longrightarrow> (\<exists>r. sum_pkgs childs = Inr r))"
proof (intro conjI impI)
  assume none: "(\<forall>c\<in>set childs. cls c = MarkedPackages \<longrightarrow> attrs c = None) \<or>
     (\<forall>c\<in>set childs. cls c = LogsPackages \<longrightarrow> attrs c = None)"
  show "\<exists>e. sum_pkgs childs = Inl e"
  proof (cases "sum_pkgs_loop childs None None")
    case (Inl e)
    then show ?thesis by (simp add: sum_pkgs_def)
  next
    case (Inr p)
    obtain m' l' where p: "p = (m', l')" by (cases p)
    with Inr none have "m' = None \<or> l' = None"
      using sum_pkgs_loop_mark_unbound sum_pkgs_loop_logs_unbound by blast
    with Inr p show ?thesis
      by (auto simp: sum_pkgs_def split: option.splits)
  qed
next
  assume one: "filter (\<lambda>c. cls c = MarkedPackages) childs = [m] \<and> attrs m \<noteq> None \<and>
      filter (\<lambda>c. cls c = LogsPackages) childs = [l] \<and> attrs l \<noteq> None"
  have set: "\<And>c. c \<in> set childs \<Longrightarrow> cls c = MarkedPackages \<Longrightarrow> c = m"
            "\<And>c. c \<in> set childs \<Longrightarrow> cls c = LogsPackages \<Longrightarrow> c = l"
  proof -
    fix c assume c: "c \<in> set childs"
    { assume "cls c = MarkedPackages"
      with c have "c \<in> set (filter (\<lambda>c. cls c = MarkedPackages) childs)" by simp
      with one show "c = m" by simp }
    { assume "cls c = LogsPackages"
      with c have "c \<in> set (filter (\<lambda>c. cls c = LogsPackages) childs)" by simp
      with one show "c = l" by simp }
  qed
  with one have all: "\<forall>c\<in>set childs. cls c \<in> {MarkedPackages, LogsPackages} \<longrightarrow> attrs c \<noteq> None"
    by auto
  from one have "last_of MarkedPackages childs = Some m" "last_of LogsPackages childs = Some l"
    by (simp_all add: filter_single_last_of)
  with one all obtain a b where
    "sum_pkgs_loop childs None None = Inr (Some (as_pair a), Some (as_pair b))"
    by (auto simp: sum_pkgs_loop_ok)
  then show "\<exists>r. sum_pkgs childs = Inr r"
    by (simp add: sum_pkgs_def Let_def)
qed

theorem sum_pkgs_needs_both_witness:
  "(\<exists>e. sum_pkgs [\<lparr>cls = MarkedPackages, attrs = Some \<lparr>pkgs_names = {''a''}, pkgs_dpnds = {}\<rparr>\<rparr>,
                   \<lparr>cls = SnapPackages, attrs = Some \<lparr>pkgs_names = {''s''}, pkgs_dpnds = {}\<rparr>\<rparr>] = Inl e)
   \<and> (\<exists>r. sum_pkgs [\<lparr>cls = MarkedPackages, attrs = Some \<lparr>pkgs_names = {''a''}, pkgs_dpnds = {}\<rparr>\<rparr>,
                     \<lparr>cls = LogsPackages, attrs = Some \<lparr>pkgs_names = {''b''}, pkgs_dpnds = {}\<rparr>\<rparr>,
                     \<lparr>cls = SnapPackages, attrs = Some \<lparr>pkgs_names = {''s''}, pkgs_dpnds = {}\<rparr>\<rparr>] = Inr r)"
proof
  show "\<exists>e. sum_pkgs [\<lparr>cls = MarkedPackages, attrs = Some \<lparr>pkgs_names = {''a''}, pkgs_dpnds = {}\<rparr>\<rparr>,
                   \<lparr>cls = SnapPackages, attrs = Some \<lparr>pkgs_names = {''s''}, pkgs_dpnds = {}\<rparr>\<rparr>] = Inl e"
    using sum_pkgs_needs_both
      [of "[\<lparr>cls = MarkedPackages, attrs = Some \<lparr>pkgs_names = {''a''}, pkgs_dpnds = {}\<rparr>\<rparr>,
            \<lparr>cls = SnapPackages, attrs = Some \<lparr>pkgs_names = {''s''}, pkgs_dpnds = {}\<rparr>\<rparr>]"]
    by simp
next
  show "\<exists>r. sum_pkgs [\<lparr>cls = MarkedPackages, attrs = Some \<lparr>pkgs_names = {''a''}, pkgs_dpnds = {}\<rparr>\<rparr>,
                     \<lparr>cls = LogsPackages, attrs = Some \<lparr>pkgs_names = {''b''}, pkgs_dpnds = {}\<rparr>\<rparr>,
                     \<lparr>cls = SnapPackages, attrs = Some \<lparr>pkgs_names = {''s''}, pkgs_dpnds = {}\<rparr>\<rparr>] = Inr r"
    using sum_pkgs_needs_both
      [of "[\<lparr>cls = MarkedPackages, attrs = Some \<lparr>pkgs_names = {''a''}, pkgs_dpnds = {}\<rparr>\<rparr>,
            \<lparr>cls = LogsPackages, attrs = Some \<lparr>pkgs_names = {''b''}, pkgs_dpnds = {}\<rparr>\<rparr>,
            \<lparr>cls = SnapPackages, attrs = Some \<lparr>pkgs_names = {''s''}, pkgs_dpnds = {}\<rparr>\<rparr>]"
          "\<lparr>cls = MarkedPackages, attrs = Some \<lparr>pkgs_names = {''a''}, pkgs_dpnds = {}\<rparr>\<rparr>"
          "\<lparr>cls = LogsPackages, attrs = Some \<lparr>pkgs_names = {''b''}, pkgs_dpnds = {}\<rparr>\<rparr>"]
    by simp
qed



subsection \<open>The parsers\<close>

lemma separate_structured_info_absent:
  assumes "\<forall>l\<in>set info. \<not> py_in name_trigger l" and "\<forall>l\<in>set info. \<not> py_in depends_trigger l"
  shows "separate_structured_info info name_trigger depends_trigger = ([], [])"
  using assms by (simp add: separate_structured_info_def)

lemma add_pkg_info_absent:
  assumes "\<forall>l\<in>set info. \<not> py_in PKG_NAME_TRIGGER l"
    and "\<forall>l\<in>set info. \<not> py_in PKG_DEPENDS_TRIGGER l"
  shows "add_pkg_info info acc = acc"
  using assms by (cases acc) (simp add: add_pkg_info_def separate_structured_info_absent)

text \<open>
  C4.  \<open>_parse_dpnds\<close> deletes the marker \<open>Pre-\<close>, then every \<open>|\<close>, strips the white space
  at both ends, splits at \<open>, \<close> and keeps of every entry what stands before its first
  space; the result is a list, which the callers turn into a set.  Deleting the marker
  turns pieces joined by \<open>Pre-\<close> into their concatenation; stripping takes a run of
  white space characters away from each end, down to a text that neither starts nor
  ends with one; splitting gives back the entries that were joined by \<open>, \<close>.  For
  \<open>foo (>= 1.0), bar | baz, Pre-qux\<close>, with or without white space around it, the
  elements are \<open>foo\<close>, \<open>bar\<close> and \<open>qux\<close>.
\<close>

theorem parse_dpnds_entries:
  "parse_dpnds raw =
     map (takeWhile (\<lambda>c. c \<noteq> CHR '' ''))
       (py_split '', '' (py_strip (filter (\<lambda>c. c \<noteq> CHR ''|'') (py_replace ''Pre-'' [] raw))))
   \<and> (list_all (\<lambda>p. \<not> (\<exists>a b. p = a @ ''Pre-'' @ b)) ps \<longrightarrow>
        py_replace ''Pre-'' [] (join ''Pre-'' ps) = concat ps)
   \<and> (list_all isspace l \<and> list_all isspace r \<and>
      (t = [] \<or> \<not> isspace (hd t) \<and> \<not> isspace (last t)) \<longrightarrow>
        py_strip (l @ t @ r) = t)
   \<and> (isspace c \<longleftrightarrow>
        c \<in> {CHR 0x09, CHR 0x0A, CHR 0x0B, CHR 0x0C, CHR 0x0D, CHR 0x1C, CHR 0x1D, CHR 0x1E,
              CHR 0x1F, CHR '' '', CHR 0x85, CHR 0xA0})
   \<and> (es \<noteq> [] \<and> list_all (\<lambda>e. \<not> (\<exists>a b. e = a @ '', '' @ b)) es \<longrightarrow>
        py_split '', '' (join '', '' es) = es)
   \<and> parse_dpnds ''foo (>= 1.0), bar | baz, Pre-qux'' = [''foo'', ''bar'', ''qux'']
   \<and> set (parse_dpnds ''foo (>= 1.0), bar | baz, Pre-qux'') = {''foo'', ''bar'', ''qux''}
   \<and> parse_dpnds ([CHR 0x09] @ ''  foo (>= 1.0), bar | baz, Pre-qux '' @ [NL])
       = [''foo'', ''bar'', ''qux'']"
proof (intro conjI impI)
  show "parse_dpnds raw =
     map (takeWhile (\<lambda>c. c \<noteq> CHR '' ''))
       (py_split '', '' (py_strip (filter (\<lambda>c. c \<noteq> CHR ''|'') (py_replace ''Pre-'' [] raw))))"
    by (simp add: parse_dpnds_def py_split_space_hd py_replace_char)
next
  assume "list_all (\<lambda>p. \<not> (\<exists>a b. p = a @ ''Pre-'' @ b)) ps"
  then have "\<forall>p\<in>set ps. \<not> py_in ''Pre-'' p"
    by (simp add: list_all_iff py_in_iff)
  moreover have "border_free ''Pre-''" by code_simp
  ultimately show "py_replace ''Pre-'' [] (join ''Pre-'' ps) = concat ps"
    by (intro py_replace_join) simp_all
next
  assume "list_all isspace l \<and> list_all isspace r \<and>
      (t = [] \<or> \<not> isspace (hd t) \<and> \<not> isspace (last t))"
  then show "py_strip (l @ t @ r) = t"
    by (intro py_strip_spec) simp_all
next
  show "isspace c \<longleftrightarrow>
        c \<in> {CHR 0x09, CHR 0x0A, CHR 0x0B, CHR 0x0C, CHR 0x0D, CHR 0x1C, CHR 0x1D, CHR 0x1E,
              CHR 0x1F, CHR '' '', CHR 0x85, CHR 0xA0}"
    by (rule isspace_chars)
next
  assume h: "es \<noteq> [] \<and> list_all (\<lambda>e. \<not> (\<exists>a b. e = a @ '', '' @ b)) es"
  then have "\<forall>e\<in>set es. \<not> py_in '', '' e"
    by (simp add: list_all_iff py_in_iff)
  moreover have "border_free '', ''" by code_simp
  ultimately show "py_split '', '' (join '', '' es) = es"
    using h by (intro py_split_join) simp_all
next
  show "parse_dpnds ''foo (>= 1.0), bar | baz, Pre-qux'' = [''foo'', ''bar'', ''qux'']"
    by code_simp
next
  have "parse_dpnds ''foo (>= 1.0), bar | baz, Pre-qux'' = [''foo'', ''bar'', ''qux'']"
    by code_simp
  then show "set (parse_dpnds ''foo (>= 1.0), bar | baz, Pre-qux'') = {''foo'', ''bar'', ''qux''}"
    by simp
next
  show "parse_dpnds ([CHR 0x09] @ ''  foo (>= 1.0), bar | baz, Pre-qux '' @ [NL])
       = [''foo'', ''bar'', ''qux'']"
    by code_simp
qed

theorem parse_dpnds_entries_witness:
  "py_replace ''Pre-'' [] (join ''Pre-'' [''libc6, '', ''dpkg (>= 1.15), '', ''tar'']) =
     ''libc6, dpkg (>= 1.15), tar''
   \<and> py_strip ([CHR 0x09, CHR '' ''] @ ''libc6, tar'' @ [CHR '' '', NL]) = ''libc6, tar''
   \<and> py_split '', '' (join '', '' [''libc6 (>= 2.0)'', ''tar'', ''a,b'']) =
       [''libc6 (>= 2.0)'', ''tar'', ''a,b'']"
proof -
  let ?ps = "[''libc6, '', ''dpkg (>= 1.15), '', ''tar'']"
  let ?es = "[''libc6 (>= 2.0)'', ''tar'', ''a,b'']"
  note t = parse_dpnds_entries
             [of "[]" ?ps "[CHR 0x09, CHR '' '']" "[CHR '' '', NL]" "''libc6, tar''" NL ?es]
  have "list_all (\<lambda>p. \<not> py_in ''Pre-'' p) ?ps" by code_simp
  then have 1: "list_all (\<lambda>p. \<not> (\<exists>a b. p = a @ ''Pre-'' @ b)) ?ps"
    unfolding py_in_iff .
  have 2: "list_all isspace [CHR 0x09, CHR '' ''] \<and> list_all isspace [CHR '' '', NL] \<and>
           (''libc6, tar'' = [] \<or>
            \<not> isspace (hd ''libc6, tar'') \<and> \<not> isspace (last ''libc6, tar''))"
    by code_simp
  have "list_all (\<lambda>e. \<not> py_in '', '' e) ?es" by code_simp
  then have 3: "?es \<noteq> [] \<and> list_all (\<lambda>e. \<not> (\<exists>a b. e = a @ '', '' @ b)) ?es"
    unfolding py_in_iff by simp
  from t 1 have "py_replace ''Pre-'' [] (join ''Pre-'' ?ps) = concat ?ps" by blast
  moreover from t 2 have
    "py_strip ([CHR 0x09, CHR '' ''] @ ''libc6, tar'' @ [CHR '' '', NL]) = ''libc6, tar''"
    by blast
  moreover from t 3 have "py_split '', '' (join '', '' ?es) = ?es" by blast
  ultimately show ?thesis by simp
qed

lemma py_in_join:
  assumes "2 \<le> length ps"
  shows "py_in sep (join sep ps)"
proof -
  from assms obtain p q rest where "ps = p # q # rest"
    by (cases ps; cases "tl ps") auto
  then have "join sep ps = p @ sep @ join sep (q # rest)" by simp
  then show ?thesis unfolding py_in_iff by blast
qed

lemma filter_first:
  assumes "\<forall>x\<in>set before. \<not> P x" and "P l"
  shows "filter P (before @ l # after) ! 0 = l \<and> filter P (before @ l # after) \<noteq> []"
  using assms by (simp add: filter_False)

lemma separate_structured_info_name:
  assumes "\<forall>x\<in>set before. \<not> py_in ''Package: '' x"
    and "2 \<le> length ps" and "\<forall>p\<in>set ps. \<not> py_in ''Package: '' p"
  shows "fst (separate_structured_info (before @ join ''Package: '' ps # after)
                PKG_NAME_TRIGGER PKG_DEPENDS_TRIGGER) = concat ps"
proof -
  have bf: "border_free ''Package: ''" by code_simp
  from filter_first [of before "py_in ''Package: ''" "join ''Package: '' ps" after]
    assms(1) py_in_join [OF assms(2), of "''Package: ''"]
  have "filter (py_in ''Package: '') (before @ join ''Package: '' ps # after) ! 0
          = join ''Package: '' ps"
    and "filter (py_in ''Package: '') (before @ join ''Package: '' ps # after) \<noteq> []"
    by simp_all
  moreover have "py_replace ''Package: '' [] (join ''Package: '' ps) = concat ps"
    using bf assms(3) by (intro py_replace_join) simp_all
  ultimately show ?thesis
    by (simp add: separate_structured_info_def PKG_NAME_TRIGGER_def Let_def)
qed

lemma separate_structured_info_depends:
  assumes "\<forall>x\<in>set before. \<not> py_in ''Depends: '' x"
    and "2 \<le> length ps" and "\<forall>p\<in>set ps. \<not> py_in ''Depends: '' p"
  shows "snd (separate_structured_info (before @ join ''Depends: '' ps # after)
                PKG_NAME_TRIGGER PKG_DEPENDS_TRIGGER) = concat ps"
proof -
  have bf: "border_free ''Depends: ''" by code_simp
  from filter_first [of before "py_in ''Depends: ''" "join ''Depends: '' ps" after]
    assms(1) py_in_join [OF assms(2), of "''Depends: ''"]
  have "filter (py_in ''Depends: '') (before @ join ''Depends: '' ps # after) ! 0
          = join ''Depends: '' ps"
    and "filter (py_in ''Depends: '') (before @ join ''Depends: '' ps # after) \<noteq> []"
    by simp_all
  moreover have "py_replace ''Depends: '' [] (join ''Depends: '' ps) = concat ps"
    using bf assms(3) by (intro py_replace_join) simp_all
  ultimately show ?thesis
    by (simp add: separate_structured_info_def PKG_DEPENDS_TRIGGER_def Let_def)
qed

text \<open>
  C5.  With the triggers the collectors pass, \<open>Package: \<close> and \<open>Depends: \<close>,
  \<open>_separate_structured_info\<close> returns for each trigger the first line that contains
  it with every occurrence of the trigger deleted, wherever it stands in the line: a
  line made of pieces joined by the trigger comes back as the pieces put together.
  So a line that starts with the trigger and does not contain it again comes back as
  the rest of the line, and \<open>Pre-Depends: x\<close> comes back as \<open>Pre-x\<close>.  A trigger that
  occurs on no line gives the empty string, and a block with neither trigger gives
  two empty strings and leaves the lists of names and dependencies as they are.
\<close>

theorem separate_structured_info_deletes_trigger:
  "((\<forall>l\<in>set info. \<not> (\<exists>a b. l = a @ ''Package: '' @ b)) \<longrightarrow>
      fst (separate_structured_info info PKG_NAME_TRIGGER PKG_DEPENDS_TRIGGER) = [])
   \<and> ((\<forall>l\<in>set info. \<not> (\<exists>a b. l = a @ ''Depends: '' @ b)) \<longrightarrow>
      snd (separate_structured_info info PKG_NAME_TRIGGER PKG_DEPENDS_TRIGGER) = [])
   \<and> ((\<forall>l\<in>set before. \<not> (\<exists>a b. l = a @ ''Package: '' @ b)) \<and> 2 \<le> length ps \<and>
       (\<forall>p\<in>set ps. \<not> (\<exists>a b. p = a @ ''Package: '' @ b)) \<longrightarrow>
      fst (separate_structured_info (before @ join ''Package: '' ps # after)
             PKG_NAME_TRIGGER PKG_DEPENDS_TRIGGER) = concat ps)
   \<and> ((\<forall>l\<in>set before. \<not> (\<exists>a b. l = a @ ''Depends: '' @ b)) \<and> 2 \<le> length ps \<and>
       (\<forall>p\<in>set ps. \<not> (\<exists>a b. p = a @ ''Depends: '' @ b)) \<longrightarrow>
      snd (separate_structured_info (before @ join ''Depends: '' ps # after)
             PKG_NAME_TRIGGER PKG_DEPENDS_TRIGGER) = concat ps)
   \<and> ((\<forall>l\<in>set before. \<not> (\<exists>a b. l = a @ ''Package: '' @ b)) \<and>
       \<not> (\<exists>a b. rest = a @ ''Package: '' @ b) \<longrightarrow>
      fst (separate_structured_info (before @ (''Package: '' @ rest) # after)
             PKG_NAME_TRIGGER PKG_DEPENDS_TRIGGER) = rest)
   \<and> ((\<forall>l\<in>set before. \<not> (\<exists>a b. l = a @ ''Depends: '' @ b)) \<and>
       \<not> (\<exists>a b. rest = a @ ''Depends: '' @ b) \<longrightarrow>
      snd (separate_structured_info (before @ (''Depends: '' @ rest) # after)
             PKG_NAME_TRIGGER PKG_DEPENDS_TRIGGER) = rest)
   \<and> ((\<forall>l\<in>set info. \<not> (\<exists>a b. l = a @ ''Package: '' @ b)) \<and>
       (\<forall>l\<in>set info. \<not> (\<exists>a b. l = a @ ''Depends: '' @ b)) \<longrightarrow>
      separate_structured_info info PKG_NAME_TRIGGER PKG_DEPENDS_TRIGGER = ([], []) \<and>
      add_pkg_info info acc = acc)
   \<and> separate_structured_info
        [''Package: coreutils'', ''Status: install ok installed'',
         ''Pre-Depends: libacl1 (>= 2.2.23)'']
        PKG_NAME_TRIGGER PKG_DEPENDS_TRIGGER
       = (''coreutils'', ''Pre-libacl1 (>= 2.2.23)'')"
proof (intro conjI impI)
  assume "\<forall>l\<in>set info. \<not> (\<exists>a b. l = a @ ''Package: '' @ b)"
  then have "filter (py_in ''Package: '') info = []"
    by (simp add: py_in_iff)
  then show "fst (separate_structured_info info PKG_NAME_TRIGGER PKG_DEPENDS_TRIGGER) = []"
    by (simp add: separate_structured_info_def PKG_NAME_TRIGGER_def Let_def)
next
  assume "\<forall>l\<in>set info. \<not> (\<exists>a b. l = a @ ''Depends: '' @ b)"
  then have "filter (py_in ''Depends: '') info = []"
    by (simp add: py_in_iff)
  then show "snd (separate_structured_info info PKG_NAME_TRIGGER PKG_DEPENDS_TRIGGER) = []"
    by (simp add: separate_structured_info_def PKG_DEPENDS_TRIGGER_def Let_def)
next
  assume "(\<forall>l\<in>set before. \<not> (\<exists>a b. l = a @ ''Package: '' @ b)) \<and> 2 \<le> length ps \<and>
       (\<forall>p\<in>set ps. \<not> (\<exists>a b. p = a @ ''Package: '' @ b))"
  then show "fst (separate_structured_info (before @ join ''Package: '' ps # after)
             PKG_NAME_TRIGGER PKG_DEPENDS_TRIGGER) = concat ps"
    by (intro separate_structured_info_name) (simp_all add: py_in_iff)
next
  assume "(\<forall>l\<in>set before. \<not> (\<exists>a b. l = a @ ''Depends: '' @ b)) \<and> 2 \<le> length ps \<and>
       (\<forall>p\<in>set ps. \<not> (\<exists>a b. p = a @ ''Depends: '' @ b))"
  then show "snd (separate_structured_info (before @ join ''Depends: '' ps # after)
             PKG_NAME_TRIGGER PKG_DEPENDS_TRIGGER) = concat ps"
    by (intro separate_structured_info_depends) (simp_all add: py_in_iff)
next
  assume h: "(\<forall>l\<in>set before. \<not> (\<exists>a b. l = a @ ''Package: '' @ b)) \<and>
       \<not> (\<exists>a b. rest = a @ ''Package: '' @ b)"
  have "\<not> py_in ''Package: '' []" by code_simp
  with h have "\<forall>p\<in>set [[], rest]. \<not> py_in ''Package: '' p"
    by (simp add: py_in_iff)
  with h separate_structured_info_name [of before "[[], rest]" after]
  show "fst (separate_structured_info (before @ (''Package: '' @ rest) # after)
             PKG_NAME_TRIGGER PKG_DEPENDS_TRIGGER) = rest"
    by (simp add: py_in_iff)
next
  assume h: "(\<forall>l\<in>set before. \<not> (\<exists>a b. l = a @ ''Depends: '' @ b)) \<and>
       \<not> (\<exists>a b. rest = a @ ''Depends: '' @ b)"
  have "\<not> py_in ''Depends: '' []" by code_simp
  with h have "\<forall>p\<in>set [[], rest]. \<not> py_in ''Depends: '' p"
    by (simp add: py_in_iff)
  with h separate_structured_info_depends [of before "[[], rest]" after]
  show "snd (separate_structured_info (before @ (''Depends: '' @ rest) # after)
             PKG_NAME_TRIGGER PKG_DEPENDS_TRIGGER) = rest"
    by (simp add: py_in_iff)
next
  assume h: "(\<forall>l\<in>set info. \<not> (\<exists>a b. l = a @ ''Package: '' @ b)) \<and>
       (\<forall>l\<in>set info. \<not> (\<exists>a b. l = a @ ''Depends: '' @ b))"
  then have n: "\<forall>l\<in>set info. \<not> py_in PKG_NAME_TRIGGER l"
    and d: "\<forall>l\<in>set info. \<not> py_in PKG_DEPENDS_TRIGGER l"
    by (simp_all add: py_in_iff PKG_NAME_TRIGGER_def PKG_DEPENDS_TRIGGER_def)
  from separate_structured_info_absent [OF n d]
  show "separate_structured_info info PKG_NAME_TRIGGER PKG_DEPENDS_TRIGGER = ([], [])" .
  from add_pkg_info_absent [OF n d]
  show "add_pkg_info info acc = acc" .
next
  show "separate_structured_info
        [''Package: coreutils'', ''Status: install ok installed'',
         ''Pre-Depends: libacl1 (>= 2.2.23)'']
        PKG_NAME_TRIGGER PKG_DEPENDS_TRIGGER
       = (''coreutils'', ''Pre-libacl1 (>= 2.2.23)'')"
    by code_simp
qed

theorem separate_structured_info_deletes_trigger_witness:
  "fst (separate_structured_info
          ([''Status: install ok installed''] @ (''Package: '' @ ''vim'') # [''Depends: libc6''])
          PKG_NAME_TRIGGER PKG_DEPENDS_TRIGGER) = ''vim''
   \<and> snd (separate_structured_info
          ([''Package: dash''] @ join ''Depends: '' [''Pre-'', ''libc6 (>= 2.34)''] # [])
          PKG_NAME_TRIGGER PKG_DEPENDS_TRIGGER) = ''Pre-libc6 (>= 2.34)''
   \<and> separate_structured_info [''Status: install ok installed'', ''Priority: optional'']
        PKG_NAME_TRIGGER PKG_DEPENDS_TRIGGER = ([], [])
   \<and> add_pkg_info [''Status: install ok installed'', ''Priority: optional''] ([''vim''], [''libc6''])
       = ([''vim''], [''libc6''])"
proof -
  have a: "\<forall>l\<in>set [''Status: install ok installed'']. \<not> (\<exists>a b. l = a @ ''Package: '' @ b)"
    and b: "\<not> (\<exists>a b. ''vim'' = a @ ''Package: '' @ b)"
    and c: "\<forall>l\<in>set [''Package: dash'']. \<not> (\<exists>a b. l = a @ ''Depends: '' @ b)"
    and d: "\<forall>p\<in>set [''Pre-'', ''libc6 (>= 2.34)'']. \<not> (\<exists>a b. p = a @ ''Depends: '' @ b)"
    and e: "\<forall>l\<in>set [''Status: install ok installed'', ''Priority: optional''].
              \<not> (\<exists>a b. l = a @ ''Package: '' @ b)"
    and f: "\<forall>l\<in>set [''Status: install ok installed'', ''Priority: optional''].
              \<not> (\<exists>a b. l = a @ ''Depends: '' @ b)"
    unfolding py_in_iff [symmetric] by code_simp+
  from separate_structured_info_deletes_trigger
         [of "[''Status: install ok installed'']" "[''Status: install ok installed'']"
             "[[], ''vim'']" "[''Depends: libc6'']" "''vim''" "([], [])"] a b
  have 1: "fst (separate_structured_info
          ([''Status: install ok installed''] @ (''Package: '' @ ''vim'') # [''Depends: libc6''])
          PKG_NAME_TRIGGER PKG_DEPENDS_TRIGGER) = ''vim''"
    by blast
  have l: "2 \<le> length [''Pre-'', ''libc6 (>= 2.34)'']" by simp
  from separate_structured_info_deletes_trigger
         [of "[''Package: dash'']" "[''Package: dash'']"
             "[''Pre-'', ''libc6 (>= 2.34)'']" "[]" "[]" "([], [])"] c d l
  have 2: "snd (separate_structured_info
          ([''Package: dash''] @ join ''Depends: '' [''Pre-'', ''libc6 (>= 2.34)''] # [])
          PKG_NAME_TRIGGER PKG_DEPENDS_TRIGGER) = ''Pre-libc6 (>= 2.34)''"
    by simp
  from separate_structured_info_deletes_trigger
         [of "[''Status: install ok installed'', ''Priority: optional'']" "[]"
             "[]" "[]" "[]" "([''vim''], [''libc6''])"] e f
  have 3: "separate_structured_info [''Status: install ok installed'', ''Priority: optional'']
        PKG_NAME_TRIGGER PKG_DEPENDS_TRIGGER = ([], []) \<and>
      add_pkg_info [''Status: install ok installed'', ''Priority: optional'']
        ([''vim''], [''libc6'']) = ([''vim''], [''libc6''])"
    by blast
  from 1 2 3 show ?thesis by blast
qed

text \<open>
  The record of a package that has pre-dependencies only: the first line that contains
  \<open>Depends: \<close> is the line \<open>Pre-Depends: libacl1 (>= 2.2.23)\<close>, of which the trigger is no
  prefix.  The function returns \<open>Pre-libacl1 (>= 2.2.23)\<close>, which is neither the line
  with a prefix stripped nor the text behind the trigger.
\<close>

theorem separate_structured_info_prefix_counterexample:
  "separate_structured_info
     [''Package: coreutils'', ''Status: install ok installed'', ''Pre-Depends: libacl1 (>= 2.2.23)'']
     ''Package: '' ''Depends: ''
     = (''coreutils'', ''Pre-libacl1 (>= 2.2.23)'')
   \<and> extract_spec
       [''Package: coreutils'', ''Status: install ok installed'', ''Pre-Depends: libacl1 (>= 2.2.23)'']
       ''Package: '' ''Depends: ''
     = (''coreutils'', ''Pre-Depends: libacl1 (>= 2.2.23)'')
   \<and> separate_structured_info
       [''Package: coreutils'', ''Status: install ok installed'', ''Pre-Depends: libacl1 (>= 2.2.23)'']
       ''Package: '' ''Depends: ''
     \<noteq> extract_spec
       [''Package: coreutils'', ''Status: install ok installed'', ''Pre-Depends: libacl1 (>= 2.2.23)'']
       ''Package: '' ''Depends: ''
   \<and> snd (separate_structured_info
       [''Package: coreutils'', ''Status: install ok installed'', ''Pre-Depends: libacl1 (>= 2.2.23)'']
       ''Package: '' ''Depends: '')
     \<noteq> ''libacl1 (>= 2.2.23)''"
  by code_simp

subsection \<open>The collectors\<close>

lemma store_disjoint: "pkgs_names (store ns ds) \<inter> pkgs_dpnds (store ns ds) = {}"
  by (auto simp: store_def Let_def)

lemma store_dpnds: "pkgs_dpnds (store ns ds) = set ds"
  by (simp add: store_def Let_def)

lemma store_names: "pkgs_names (store ns ds) = set ns - set ds"
  by (simp add: store_def Let_def)

lemma MarkedPackages_loop_returns:
  "\<forall>command. \<exists>out. sh command = Inr out \<Longrightarrow> \<exists>r. MarkedPackages_loop sh pkgs acc = Inr r"
proof (induction pkgs arbitrary: acc)
  case Nil
  show ?case by simp
next
  case (Cons p ps)
  obtain out where "sh (INFO_COMMAND[2 := format_pkg_name (INFO_COMMAND ! 2) p]) = Inr out"
    using Cons.prems by blast
  with Cons show ?case
    by (simp add: run_command_def Let_def)
qed

lemma sum_pkgs_disjoint: "sum_pkgs childs = Inr (names, dpnds) \<Longrightarrow> names \<inter> dpnds = {}"
  by (auto simp: sum_pkgs_def Let_def split: sum.splits option.splits)

text \<open>
  C3.  Whatever the commands print, the attributes a collector stores have no name
  among the dependencies, and so has the pair \<open>sum_pkgs\<close> returns; and every collector
  does store attributes when its commands run.
\<close>

theorem names_dpnds_disjoint:
  "(LogsPackages_main sh = Inr a \<longrightarrow> pkgs_names a \<inter> pkgs_dpnds a = {})
   \<and> (MarkedPackages_main sh = Inr a \<longrightarrow> pkgs_names a \<inter> pkgs_dpnds a = {})
   \<and> (SnapPackages_main sh = Inr a \<longrightarrow> pkgs_names a \<inter> pkgs_dpnds a = {})
   \<and> (sum_pkgs childs = Inr (names, dpnds) \<longrightarrow> names \<inter> dpnds = {})
   \<and> ((\<forall>command. \<exists>out. sh command = Inr out) \<longrightarrow>
        (\<exists>a. LogsPackages_main sh = Inr a) \<and> (\<exists>a. MarkedPackages_main sh = Inr a) \<and>
        (\<exists>a. SnapPackages_main sh = Inr a))"
proof (intro conjI impI)
  assume "LogsPackages_main sh = Inr a"
  then show "pkgs_names a \<inter> pkgs_dpnds a = {}"
    by (auto simp: LogsPackages_main_def Let_def store_names store_dpnds split: sum.splits prod.splits)
next
  assume "MarkedPackages_main sh = Inr a"
  then show "pkgs_names a \<inter> pkgs_dpnds a = {}"
    by (auto simp: MarkedPackages_main_def store_names store_dpnds split: sum.splits prod.splits)
next
  assume "SnapPackages_main sh = Inr a"
  then show "pkgs_names a \<inter> pkgs_dpnds a = {}"
    by (auto simp: SnapPackages_main_def Let_def store_names store_dpnds split: sum.splits)
next
  assume "sum_pkgs childs = Inr (names, dpnds)"
  then show "names \<inter> dpnds = {}" by (rule sum_pkgs_disjoint)
next
  assume run: "\<forall>command. \<exists>out. sh command = Inr out"
  then obtain out where "sh LogsPackages_PKGS_COMMAND = Inr out" by blast
  then show "\<exists>a. LogsPackages_main sh = Inr a"
    by (simp add: LogsPackages_main_def run_command_def Let_def split: prod.splits)
next
  assume run: "\<forall>command. \<exists>out. sh command = Inr out"
  then obtain out where out: "sh MarkedPackages_PKGS_COMMAND = Inr out" by blast
  from MarkedPackages_loop_returns [OF run] obtain r where
    "MarkedPackages_loop sh (separate_pkg_info out) ([], []) = Inr r" by blast
  with out show "\<exists>a. MarkedPackages_main sh = Inr a"
    by (simp add: MarkedPackages_main_def run_command_def split: prod.splits)
next
  assume run: "\<forall>command. \<exists>out. sh command = Inr out"
  then obtain out where "sh SnapPackages_PKGS_COMMAND = Inr out" by blast
  then show "\<exists>a. SnapPackages_main sh = Inr a"
    by (simp add: SnapPackages_main_def run_command_def Let_def)
qed

theorem names_dpnds_disjoint_witness:
  "LogsPackages_loop
       (separate_all_info (''Package: libc6'' @ [NL] @ ''Depends: libc6, vim'' @ [NL] @ [NL] @
                           ''Package: git'' @ [NL] @ ''Depends: libc6''))
       ([], [])
     = ([''libc6'', ''git''], [''libc6'', ''vim'', ''libc6''])
   \<and> LogsPackages_main example_shell
       = Inr \<lparr>pkgs_names = {''git''}, pkgs_dpnds = {''libc6'', ''vim''}\<rparr>
   \<and> MarkedPackages_loop example_shell [''libc6'', ''git''] ([], [])
       = Inr ([''libc6'', ''git''], [''libc6'', ''vim''])
   \<and> MarkedPackages_main example_shell
       = Inr \<lparr>pkgs_names = {''git''}, pkgs_dpnds = {''libc6'', ''vim''}\<rparr>
   \<and> SnapPackages_main example_shell
       = Inr \<lparr>pkgs_names = {''vlc''}, pkgs_dpnds = {''snap-store''}\<rparr>
   \<and> sum_pkgs
       [\<lparr>cls = MarkedPackages,
         attrs = Some \<lparr>pkgs_names = {''git'', ''vim'', ''tar''}, pkgs_dpnds = {''libc6'', ''tar''}\<rparr>\<rparr>,
        \<lparr>cls = LogsPackages,
         attrs = Some \<lparr>pkgs_names = {''git''}, pkgs_dpnds = {''libc6''}\<rparr>\<rparr>]
       = Inr ({''vim''}, {''tar''})
   \<and> {''git''} \<inter> {''libc6'', ''vim''} = ({} :: string set)
   \<and> {''vlc''} \<inter> {''snap-store''} = ({} :: string set)
   \<and> {''vim''} \<inter> {''tar''} = ({} :: string set)"
proof -
  let ?R = "[\<lparr>cls = MarkedPackages,
         attrs = Some \<lparr>pkgs_names = {''git'', ''vim'', ''tar''}, pkgs_dpnds = {''libc6'', ''tar''}\<rparr>\<rparr>,
        \<lparr>cls = LogsPackages,
         attrs = Some \<lparr>pkgs_names = {''git''}, pkgs_dpnds = {''libc6''}\<rparr>\<rparr>]"
  let ?a = "\<lparr>pkgs_names = {''git''}, pkgs_dpnds = {''libc6'', ''vim''}\<rparr>"
  let ?s = "\<lparr>pkgs_names = {''vlc''}, pkgs_dpnds = {''snap-store''}\<rparr>"
  have ll: "LogsPackages_loop
       (separate_all_info (''Package: libc6'' @ [NL] @ ''Depends: libc6, vim'' @ [NL] @ [NL] @
                           ''Package: git'' @ [NL] @ ''Depends: libc6''))
       ([], [])
     = ([''libc6'', ''git''], [''libc6'', ''vim'', ''libc6''])"
    by code_simp
  have l: "LogsPackages_main example_shell = Inr ?a" by code_simp
  have ml: "MarkedPackages_loop example_shell [''libc6'', ''git''] ([], [])
       = Inr ([''libc6'', ''git''], [''libc6'', ''vim''])"
    by code_simp
  have m: "MarkedPackages_main example_shell = Inr ?a" by code_simp
  have s: "SnapPackages_main example_shell = Inr ?s" by code_simp
  have r: "sum_pkgs ?R = Inr ({''vim''}, {''tar''})" by code_simp
  from names_dpnds_disjoint [of example_shell ?a ?R "{''vim''}" "{''tar''}"] l r
  have 1: "{''git''} \<inter> {''libc6'', ''vim''} = ({} :: string set)"
    and 3: "{''vim''} \<inter> {''tar''} = ({} :: string set)"
    by simp_all
  from names_dpnds_disjoint [of example_shell ?s ?R "{''vim''}" "{''tar''}"] s
  have 2: "{''vlc''} \<inter> {''snap-store''} = ({} :: string set)"
    by simp
  from ll l ml m s r 1 2 3 show ?thesis by blast
qed

subsection \<open>The snap listing\<close>

lemma split_space_no_word:
  "filter (\<lambda>elem. length elem > 0) (py_split '' '' line) = [] \<longleftrightarrow>
   dropWhile (\<lambda>c. c = CHR '' '') line = []"
  by (induction line) (auto simp: startswith_def py_split_not_Nil split: list.splits)

lemma split_space_first_word:
  "dropWhile (\<lambda>c. c = CHR '' '') line \<noteq> [] \<Longrightarrow>
   filter (\<lambda>elem. length elem > 0) (py_split '' '' line) ! 0 =
     takeWhile (\<lambda>c. c \<noteq> CHR '' '') (dropWhile (\<lambda>c. c = CHR '' '') line)"
proof (induction line)
  case Nil
  then show ?case by simp
next
  case (Cons c cs)
  show ?case
  proof (cases "c = CHR '' ''")
    case True
    with Cons show ?thesis by (simp add: startswith_def)
  next
    case False
    obtain w ws where w: "py_split '' '' cs = w # ws"
      using py_split_not_Nil [of "'' ''" cs] by (cases "py_split '' '' cs") auto
    with py_split_space_hd [of cs] have "w = takeWhile (\<lambda>c. c \<noteq> CHR '' '') cs" by simp
    with False w show ?thesis by (simp add: startswith_def)
  qed
qed

lemma snap_first_columns:
  "map (\<lambda>pkg. pkg ! 0)
     (filter (\<lambda>pkg. length pkg > 0)
        (map (\<lambda>pkg. filter (\<lambda>elem. length elem > 0) (py_split '' '' pkg)) ls)) =
   List.map_filter (first_column (\<lambda>c. c = CHR '' '')) ls"
proof (induction ls)
  case Nil
  show ?case by simp
next
  case (Cons l ls)
  show ?case
  proof (cases "dropWhile (\<lambda>c. c = CHR '' '') l = []")
    case True
    with Cons split_space_no_word [of l] show ?thesis
      by (simp add: first_column_def)
  next
    case False
    with Cons split_space_no_word [of l] split_space_first_word [of l] show ?thesis
      by (simp add: first_column_def Let_def)
  qed
qed

lemma rm_pkg_loop_list_all:
  "rm_pkg_loop igs n = list_all (\<lambda>ignored. \<not> py_in ignored n) igs"
  by (induction igs) auto

lemma SnapPackages_main_eq:
  assumes "sh SnapPackages_PKGS_COMMAND = Inr raw"
  shows "SnapPackages_main sh =
     Inr \<lparr>pkgs_names = listed_names (\<lambda>c. c = CHR '' '') raw, pkgs_dpnds = {''snap-store''}\<rparr>"
proof -
  have rm: "rm_pkg = (\<lambda>n. list_all (\<lambda>ignored. \<not> py_in ignored n) IGNORED_PKGS)"
    by (rule ext) (simp add: rm_pkg_def rm_pkg_loop_list_all)
  show ?thesis
    unfolding SnapPackages_main_def run_command_def separate_pkg_info_def listed_names_def
      Let_def snap_first_columns rm store_def
    using assms by simp
qed

text \<open>
  C6.  \<open>SnapPackages.main\<close> skips the first line of the listing, takes from every other
  line the first column, where only the space character separates columns, drops the
  names in which an entry of the ignore list occurs, and subtracts the placeholder
  \<open>snap-store\<close>.  The rows \<open>core\<close>, \<open>some-editor\<close> and \<open>chromium-ffmpeg\<close> leave the name
  \<open>some-editor\<close>.
\<close>

theorem SnapPackages_main_names:
  "(sh SnapPackages_PKGS_COMMAND = Inr raw \<longrightarrow>
      SnapPackages_main sh =
        Inr \<lparr>pkgs_names = listed_names (\<lambda>c. c = CHR '' '') raw, pkgs_dpnds = {''snap-store''}\<rparr>)
   \<and> names_of (SnapPackages_main (\<lambda>command. Inr
         (''Name             Version  Rev'' @ [NL] @ ''core             16-2.61  17200'' @ [NL] @
          ''some-editor      1.0      12'' @ [NL] @ ''chromium-ffmpeg  0.1      37'' @ [NL])))
       = Some {''some-editor''}"
proof (intro conjI impI)
  assume "sh SnapPackages_PKGS_COMMAND = Inr raw"
  then show "SnapPackages_main sh =
        Inr \<lparr>pkgs_names = listed_names (\<lambda>c. c = CHR '' '') raw, pkgs_dpnds = {''snap-store''}\<rparr>"
    by (rule SnapPackages_main_eq)
next
  show "names_of (SnapPackages_main (\<lambda>command. Inr
         (''Name             Version  Rev'' @ [NL] @ ''core             16-2.61  17200'' @ [NL] @
          ''some-editor      1.0      12'' @ [NL] @ ''chromium-ffmpeg  0.1      37'' @ [NL])))
       = Some {''some-editor''}"
    by code_simp
qed

theorem SnapPackages_main_names_witness:
  "SnapPackages_main (\<lambda>command. Inr (''Name  Version'' @ [NL] @ ''  vlc   3.0'' @ [NL] @ ''snapd 2.6''))
     = Inr \<lparr>pkgs_names = {''vlc''}, pkgs_dpnds = {''snap-store''}\<rparr>"
proof -
  have "listed_names (\<lambda>c. c = CHR '' '') (''Name  Version'' @ [NL] @ ''  vlc   3.0'' @ [NL] @ ''snapd 2.6'')
          = {''vlc''}"
    by code_simp
  with SnapPackages_main_names
         [of "\<lambda>command. Inr (''Name  Version'' @ [NL] @ ''  vlc   3.0'' @ [NL] @ ''snapd 2.6'')"
             "''Name  Version'' @ [NL] @ ''  vlc   3.0'' @ [NL] @ ''snapd 2.6''"]
  show ?thesis by simp
qed

text \<open>
  Columns separated by a tab are not told apart: the row \<open>foo<TAB>1.0\<close> gives the name
  \<open>foo<TAB>1.0\<close>, where the first white-space separated column is \<open>foo\<close>.
\<close>

theorem SnapPackages_main_tab_counterexample:
  "names_of (SnapPackages_main (\<lambda>command. Inr
       (''Name'' @ [CHR 0x09] @ ''Version'' @ [NL] @ ''foo'' @ [CHR 0x09] @ ''1.0'' @ [NL])))
     = Some {''foo'' @ [CHR 0x09] @ ''1.0''}
   \<and> listed_names isspace
       (''Name'' @ [CHR 0x09] @ ''Version'' @ [NL] @ ''foo'' @ [CHR 0x09] @ ''1.0'' @ [NL])
     = {''foo''}
   \<and> names_of (SnapPackages_main (\<lambda>command. Inr
       (''Name'' @ [CHR 0x09] @ ''Version'' @ [NL] @ ''foo'' @ [CHR 0x09] @ ''1.0'' @ [NL])))
     \<noteq> Some (listed_names isspace
       (''Name'' @ [CHR 0x09] @ ''Version'' @ [NL] @ ''foo'' @ [CHR 0x09] @ ''1.0'' @ [NL]))"
  by code_simp

lemma struct_pkgs_loop_Inr:
  "struct_pkgs_loop childs rd = Inr m \<Longrightarrow> \<forall>c\<in>set childs. cls c = SnapPackages \<longrightarrow> attrs c \<noteq> None"
  by (induction childs arbitrary: rd) (auto split: if_splits option.splits)

text \<open>
  C9.  Whatever the listing is, \<open>SnapPackages.main\<close> stores the dependency set
  \<open>{snap-store}\<close>, and \<open>snap-store\<close> is not among the names it stores, nor in the group
  \<open>snap_pkgs\<close> that \<open>struct_pkgs\<close> takes from them, although no entry of the ignore list
  occurs in \<open>snap-store\<close>.
\<close>

theorem SnapPackages_placeholder:
  "(sh SnapPackages_PKGS_COMMAND = Inr raw \<longrightarrow>
      (\<exists>a. SnapPackages_main sh = Inr a \<and> pkgs_dpnds a = {''snap-store''} \<and>
           ''snap-store'' \<notin> pkgs_names a))
   \<and> (SnapPackages_main sh = Inr a \<and> last_of SnapPackages childs = Some c \<and> attrs c = Some a \<and>
      group_of (struct_pkgs childs names) ''snap_pkgs'' = Some snap_pkgs
      \<longrightarrow> ''snap-store'' \<notin> snap_pkgs)
   \<and> rm_pkg ''snap-store''
   \<and> list_all (\<lambda>ignored. \<not> py_in ignored ''snap-store'') IGNORED_PKGS"
proof (intro conjI impI)
  assume "sh SnapPackages_PKGS_COMMAND = Inr raw"
  then show "\<exists>a. SnapPackages_main sh = Inr a \<and> pkgs_dpnds a = {''snap-store''} \<and>
           ''snap-store'' \<notin> pkgs_names a"
    by (simp add: SnapPackages_main_eq listed_names_def)
next
  assume h: "SnapPackages_main sh = Inr a \<and> last_of SnapPackages childs = Some c \<and>
      attrs c = Some a \<and> group_of (struct_pkgs childs names) ''snap_pkgs'' = Some snap_pkgs"
  then obtain raw where "sh SnapPackages_PKGS_COMMAND = Inr raw"
    by (auto simp: SnapPackages_main_def run_command_def split: sum.splits)
  with h have a: "''snap-store'' \<notin> pkgs_names a"
    by (auto simp: SnapPackages_main_eq listed_names_def)
  from h obtain m where "struct_pkgs childs names = Inr m"
    by (auto simp: group_of_def split: sum.splits)
  then have "\<forall>c\<in>set childs. cls c = SnapPackages \<longrightarrow> attrs c \<noteq> None"
    unfolding struct_pkgs_def Let_def by (rule struct_pkgs_loop_Inr)
  from struct_pkgs_snap [OF this, of names] h have "snap_pkgs = pkgs_names a" by simp
  with a show "''snap-store'' \<notin> snap_pkgs" by simp
next
  show "rm_pkg ''snap-store''" by code_simp
next
  show "list_all (\<lambda>ignored. \<not> py_in ignored ''snap-store'') IGNORED_PKGS" by code_simp
qed

theorem SnapPackages_placeholder_witness:
  "(\<exists>a. SnapPackages_main (\<lambda>command. Inr (''Name'' @ [NL] @ ''snap-store'' @ [NL] @ ''vlc'')) = Inr a \<and>
        pkgs_dpnds a = {''snap-store''} \<and> ''snap-store'' \<notin> pkgs_names a)
   \<and> group_of (struct_pkgs
         [\<lparr>cls = SnapPackages, attrs = Some \<lparr>pkgs_names = {''vlc''}, pkgs_dpnds = {''snap-store''}\<rparr>\<rparr>]
         {}) ''snap_pkgs'' = Some {''vlc''}
   \<and> ''snap-store'' \<notin> {''vlc''}"
proof -
  let ?sh = "(\<lambda>command. Inr (''Name'' @ [NL] @ ''snap-store'' @ [NL] @ ''vlc'')) :: shell"
  let ?a = "\<lparr>pkgs_names = {''vlc''}, pkgs_dpnds = {''snap-store''}\<rparr>"
  let ?c = "\<lparr>cls = SnapPackages, attrs = Some ?a\<rparr>"
  have 1: "\<exists>a. SnapPackages_main ?sh = Inr a \<and> pkgs_dpnds a = {''snap-store''} \<and>
        ''snap-store'' \<notin> pkgs_names a"
    using SnapPackages_placeholder
            [of ?sh "''Name'' @ [NL] @ ''snap-store'' @ [NL] @ ''vlc''" ?a "[?c]" ?c "{}" "{''vlc''}"]
    by simp
  have m: "SnapPackages_main ?sh = Inr ?a" by code_simp
  have l: "last_of SnapPackages [?c] = Some ?c" by (simp add: last_of_def)
  have g: "group_of (struct_pkgs [?c] {}) ''snap_pkgs'' = Some {''vlc''}" by code_simp
  have 2: "''snap-store'' \<notin> {''vlc''}"
    using SnapPackages_placeholder
            [of ?sh "''Name'' @ [NL] @ ''snap-store'' @ [NL] @ ''vlc''" ?a "[?c]" ?c "{}" "{''vlc''}"]
      m l g
    by simp
  from 1 g 2 show ?thesis by blast
qed

subsection \<open>No stored name contains a line feed\<close>

text \<open>
  Every name and every dependency a collector stores is cut out of one line of the
  command output, so it contains no line feed: the sets that reach \<open>save_data\<close> are
  written one name per line.
\<close>

lemma py_split_NL_pieces: "l \<in> set (py_split [NL] s) \<Longrightarrow> NL \<notin> set l"
  by (induction s arbitrary: l) (auto simp: startswith_def split: if_splits list.splits)

lemma py_split_pieces_subset: "l \<in> set (py_split sep s) \<Longrightarrow> set l \<subseteq> set s"
proof (induction sep s arbitrary: l rule: py_split.induct)
  case (1 sep)
  then show ?case by simp
next
  case (2 sep c cs)
  show ?case
  proof (cases "sep \<noteq> [] \<and> startswith (c # cs) sep")
    case True
    with 2 have "l = [] \<or> l \<in> set (py_split sep (drop (length sep) (c # cs)))" by auto
    then show ?thesis
    proof
      assume "l = []"
      then show ?thesis by simp
    next
      assume "l \<in> set (py_split sep (drop (length sep) (c # cs)))"
      with 2(1) True have "set l \<subseteq> set (drop (length sep) (c # cs))" by blast
      then show ?thesis using set_drop_subset [of "length sep" "c # cs"] by blast
    qed
  next
    case False
    obtain w ws where w: "py_split sep cs = w # ws"
      using py_split_not_Nil [of sep cs] by (cases "py_split sep cs") auto
    with 2(3) False have "l = c # w \<or> l \<in> set ws" by auto
    then show ?thesis
    proof
      assume l: "l = c # w"
      from 2(2) [OF False, of w] w have "set w \<subseteq> set cs" by simp
      with l show ?thesis by auto
    next
      assume "l \<in> set ws"
      with 2(2) [OF False, of l] w show ?thesis by auto
    qed
  qed
qed

lemma py_replace_delete_subset: "set (py_replace old [] s) \<subseteq> set s"
proof (induction old "[] :: string" s rule: py_replace.induct)
  case (1 old)
  show ?case by simp
next
  case (2 old c cs)
  show ?case
  proof (cases "old = []")
    case True
    with 2 show ?thesis by auto
  next
    case False
    show ?thesis
    proof (cases "startswith (c # cs) old")
      case True
      with 2(2) False have "set (py_replace old [] (drop (length old) (c # cs)))
                              \<subseteq> set (drop (length old) (c # cs))" by simp
      with False True show ?thesis
        using set_drop_subset [of "length old" "c # cs"] by auto
    next
      case no: False
      with 2(3) False have "set (py_replace old [] cs) \<subseteq> set cs" by simp
      with False no show ?thesis by auto
    qed
  qed
qed

lemma py_strip_subset: "set (py_strip s) \<subseteq> set s"
proof -
  have "set (dropWhile isspace (rev (dropWhile isspace s))) \<subseteq> set (rev (dropWhile isspace s))"
    by (auto dest: set_dropWhileD)
  also have "\<dots> \<subseteq> set s" by (auto dest: set_dropWhileD)
  finally show ?thesis by (simp add: py_strip_def)
qed

lemma parse_dpnds_subset: "d \<in> set (parse_dpnds s) \<Longrightarrow> set d \<subseteq> set s"
proof -
  assume "d \<in> set (parse_dpnds s)"
  then obtain e where e: "e \<in> set (py_split '', '' (py_strip (py_replace ''|'' [] (py_replace ''Pre-'' [] s))))"
    and d: "d = takeWhile (\<lambda>c. c \<noteq> CHR '' '') e"
    by (auto simp: parse_dpnds_def py_split_space_hd)
  from d have "set d \<subseteq> set e" by (auto dest: set_takeWhileD)
  also from e have "\<dots> \<subseteq> set (py_strip (py_replace ''|'' [] (py_replace ''Pre-'' [] s)))"
    by (rule py_split_pieces_subset)
  also have "\<dots> \<subseteq> set (py_replace ''|'' [] (py_replace ''Pre-'' [] s))" by (rule py_strip_subset)
  also have "\<dots> \<subseteq> set (py_replace ''Pre-'' [] s)" by (rule py_replace_delete_subset)
  also have "\<dots> \<subseteq> set s" by (rule py_replace_delete_subset)
  finally show ?thesis .
qed

lemma separate_structured_info_no_NL:
  assumes "\<forall>l\<in>set info. NL \<notin> set l"
  shows "NL \<notin> set (fst (separate_structured_info info nt dt)) \<and>
         NL \<notin> set (snd (separate_structured_info info nt dt))"
proof -
  have *: "NL \<notin> set (py_replace lit [] (filter P info ! 0))" if "filter P info \<noteq> []" for lit P
  proof -
    from that have "0 < length (filter P info)" by simp
    then have "filter P info ! 0 \<in> set (filter P info)" by (rule nth_mem)
    then have "filter P info ! 0 \<in> set info" by simp
    with assms have "NL \<notin> set (filter P info ! 0)" by blast
    with py_replace_delete_subset [of lit "filter P info ! 0"] show ?thesis by blast
  qed
  from * [of "\<lambda>l. py_in nt l" "''Package: ''"] * [of "\<lambda>l. py_in dt l" "''Depends: ''"]
  show ?thesis
    by (auto simp: separate_structured_info_def Let_def)
qed

lemma add_pkg_info_no_NL:
  assumes "\<forall>l\<in>set info. NL \<notin> set l"
    and "\<forall>x\<in>set (fst acc) \<union> set (snd acc). NL \<notin> set x"
  shows "\<forall>x\<in>set (fst (add_pkg_info info acc)) \<union> set (snd (add_pkg_info info acc)). NL \<notin> set x"
proof -
  obtain ns ds where acc: "acc = (ns, ds)" by (cases acc)
  obtain n d where nd: "separate_structured_info info PKG_NAME_TRIGGER PKG_DEPENDS_TRIGGER = (n, d)"
    by (cases "separate_structured_info info PKG_NAME_TRIGGER PKG_DEPENDS_TRIGGER")
  from separate_structured_info_no_NL [OF assms(1), of PKG_NAME_TRIGGER PKG_DEPENDS_TRIGGER] nd
  have n: "NL \<notin> set n" and d: "NL \<notin> set d" by simp_all
  from d have "\<forall>x\<in>set (parse_dpnds d). NL \<notin> set x"
    using parse_dpnds_subset by blast
  with n assms(2) acc nd show ?thesis
    by (auto simp: add_pkg_info_def Let_def)
qed

lemma LogsPackages_loop_no_NL:
  "\<forall>x\<in>set (fst acc) \<union> set (snd acc). NL \<notin> set x \<Longrightarrow>
   \<forall>x\<in>set (fst (LogsPackages_loop blocks acc)) \<union> set (snd (LogsPackages_loop blocks acc)).
      NL \<notin> set x"
proof (induction blocks arbitrary: acc)
  case Nil
  then show ?case by simp
next
  case (Cons b bs)
  have "\<forall>l\<in>set (separate_pkg_info b). NL \<notin> set l"
    by (simp add: separate_pkg_info_def py_split_NL_pieces)
  from add_pkg_info_no_NL [OF this Cons.prems] show ?case
    by (simp only: LogsPackages_loop.simps) (rule Cons.IH)
qed

lemma MarkedPackages_loop_no_NL:
  "MarkedPackages_loop sh pkgs acc = Inr r \<Longrightarrow>
   \<forall>x\<in>set (fst acc) \<union> set (snd acc). NL \<notin> set x \<Longrightarrow>
   \<forall>x\<in>set (fst r) \<union> set (snd r). NL \<notin> set x"
proof (induction pkgs arbitrary: acc)
  case Nil
  then show ?case by simp
next
  case (Cons p ps)
  from Cons.prems(1) obtain out where
    r: "MarkedPackages_loop sh ps (add_pkg_info (separate_pkg_info out) acc) = Inr r"
    by (auto simp: Let_def split: sum.splits)
  have "\<forall>l\<in>set (separate_pkg_info out). NL \<notin> set l"
    by (simp add: separate_pkg_info_def py_split_NL_pieces)
  from add_pkg_info_no_NL [OF this Cons.prems(2)] Cons.IH [OF r] show ?case by blast
qed

lemma first_column_subset: "first_column sep line = Some n \<Longrightarrow> set n \<subseteq> set line"
proof -
  assume "first_column sep line = Some n"
  then have "n = takeWhile (\<lambda>c. \<not> sep c) (dropWhile sep line)"
    by (simp add: first_column_def Let_def split: if_splits)
  then have "set n \<subseteq> set (dropWhile sep line)" by (auto dest: set_takeWhileD)
  then show ?thesis by (auto dest: set_dropWhileD)
qed

lemma listed_names_no_NL: "n \<in> listed_names sep raw \<Longrightarrow> NL \<notin> set n"
proof -
  assume "n \<in> listed_names sep raw"
  then have "n \<in> set (List.map_filter (first_column sep) (drop 1 (py_split [NL] raw)))"
    by (simp add: listed_names_def)
  then obtain line where l: "line \<in> set (drop 1 (py_split [NL] raw))"
    and n: "first_column sep line = Some n"
    by (auto simp: List.map_filter_def)
  from l have "line \<in> set (py_split [NL] raw)" by (rule in_set_dropD)
  then have "NL \<notin> set line" by (rule py_split_NL_pieces)
  with first_column_subset [OF n] show ?thesis by blast
qed

lemma stored_names_no_line_feed:
  assumes "LogsPackages_main sh = Inr a \<or> MarkedPackages_main sh = Inr a \<or>
           SnapPackages_main sh = Inr a"
    and "n \<in> pkgs_names a \<union> pkgs_dpnds a"
  shows "NL \<notin> set n"
  using assms(1)
proof (elim disjE)
  assume "LogsPackages_main sh = Inr a"
  then have "\<exists>out. a = store (fst (LogsPackages_loop (separate_all_info out) ([], [])))
                  (snd (LogsPackages_loop (separate_all_info out) ([], [])))"
    by (auto simp: LogsPackages_main_def Let_def split: sum.splits prod.splits)
       (metis fst_conv snd_conv)
  then obtain out where
    a: "a = store (fst (LogsPackages_loop (separate_all_info out) ([], [])))
                  (snd (LogsPackages_loop (separate_all_info out) ([], [])))"
    by blast
  have "\<forall>x\<in>set (fst (LogsPackages_loop (separate_all_info out) ([], []))) \<union>
             set (snd (LogsPackages_loop (separate_all_info out) ([], []))). NL \<notin> set x"
    by (rule LogsPackages_loop_no_NL) simp
  with a assms(2) show ?thesis
    by (auto simp: store_names store_dpnds)
next
  assume "MarkedPackages_main sh = Inr a"
  then obtain out r where r: "MarkedPackages_loop sh (separate_pkg_info out) ([], []) = Inr r"
    and a: "a = store (fst r) (snd r)"
    by (auto simp: MarkedPackages_main_def split: sum.splits prod.splits)
  from MarkedPackages_loop_no_NL [OF r] have "\<forall>x\<in>set (fst r) \<union> set (snd r). NL \<notin> set x"
    by simp
  with a assms(2) show ?thesis
    by (auto simp: store_names store_dpnds)
next
  assume m: "SnapPackages_main sh = Inr a"
  then obtain raw where "sh SnapPackages_PKGS_COMMAND = Inr raw"
    by (auto simp: SnapPackages_main_def run_command_def split: sum.splits)
  from SnapPackages_main_eq [of sh raw, OF this] m
  have "pkgs_names a = listed_names (\<lambda>c. c = CHR '' '') raw" "pkgs_dpnds a = {''snap-store''}"
    by simp_all
  with assms(2) listed_names_no_NL show ?thesis by auto
qed

subsection \<open>The backup files\<close>

lemma write_values_files:
  "files f = Some old \<Longrightarrow>
   write_values files f vs = files(f \<mapsto> old @ concat (map (\<lambda>v. v @ [NL]) vs))"
proof (induction vs arbitrary: files old)
  case Nil
  then show ?case by auto
next
  case (Cons v vs)
  have w: "file_write files f (v @ [NL]) = files(f \<mapsto> old @ v @ [NL])"
    using Cons.prems by (simp add: file_write_def)
  have "write_values (file_write files f (v @ [NL])) f vs =
          (file_write files f (v @ [NL]))(f \<mapsto> (old @ v @ [NL]) @ concat (map (\<lambda>v. v @ [NL]) vs))"
    by (rule Cons.IH) (simp add: w)
  also have "\<dots> = files(f \<mapsto> (old @ v @ [NL]) @ concat (map (\<lambda>v. v @ [NL]) vs))"
    unfolding w by (rule fun_upd_upd)
  finally show ?case by simp
qed

lemma save_data_loop_step:
  assumes "save_data_loop env files ((key, names) # rest) = Inr files'"
  shows "\<exists>f. resolve env (backup_path key) = Inr f \<and>
           save_data_loop env
             (files(f \<mapsto> concat (map (\<lambda>v. v @ [NL]) (iteration env names)))) rest = Inr files'"
proof -
  from assms obtain f where f: "resolve env (backup_path key) = Inr f"
    and l: "save_data_loop env
              (write_values (files(f \<mapsto> [])) f (iteration env names)) rest = Inr files'"
    by (auto simp: backup_path_def open_w_def split: sum.splits)
  have "(files(f \<mapsto> [])) f = Some []" by simp
  with write_values_files [of "files(f \<mapsto> [])" f "[]" "iteration env names"]
  have "write_values (files(f \<mapsto> [])) f (iteration env names) =
          files(f \<mapsto> concat (map (\<lambda>v. v @ [NL]) (iteration env names)))"
    by simp
  with f l show ?thesis by simp
qed

lemma save_data_loop_other:
  "save_data_loop env files kw = Inr files' \<Longrightarrow>
   \<forall>kv\<in>set kw. resolve env (backup_path (fst kv)) \<noteq> Inr f \<Longrightarrow>
   files' f = files f"
proof (induction kw arbitrary: files)
  case Nil
  then show ?case by simp
next
  case (Cons kv kw)
  obtain k ns where kv: "kv = (k, ns)" by (cases kv)
  from Cons.prems(1) [unfolded kv] save_data_loop_step obtain g where
    g: "resolve env (backup_path k) = Inr g"
    and l: "save_data_loop env
              (files(g \<mapsto> concat (map (\<lambda>v. v @ [NL]) (iteration env ns)))) kw = Inr files'"
    by blast
  from Cons.prems(2) kv g have "g \<noteq> f" by auto
  moreover from Cons.prems(2) have "\<forall>kv\<in>set kw. resolve env (backup_path (fst kv)) \<noteq> Inr f"
    by simp
  ultimately show ?case using Cons.IH [OF l] by simp
qed

lemma save_data_loop_content:
  "save_data_loop env files kw = Inr files' \<Longrightarrow>
   distinct (map (\<lambda>kv. resolve env (backup_path (fst kv))) kw) \<Longrightarrow>
   (key, names) \<in> set kw \<Longrightarrow>
   \<exists>f. resolve env (backup_path key) = Inr f \<and>
       files' f = Some (concat (map (\<lambda>v. v @ [NL]) (iteration env names)))"
proof (induction kw arbitrary: files)
  case Nil
  then show ?case by simp
next
  case (Cons kv kw)
  obtain k ns where kv: "kv = (k, ns)" by (cases kv)
  from Cons.prems(1) [unfolded kv] save_data_loop_step obtain g where
    g: "resolve env (backup_path k) = Inr g"
    and l: "save_data_loop env
              (files(g \<mapsto> concat (map (\<lambda>v. v @ [NL]) (iteration env ns)))) kw = Inr files'"
    by blast
  show ?case
  proof (cases "(key, names) \<in> set kw")
    case True
    from Cons.prems(2) have "distinct (map (\<lambda>kv. resolve env (backup_path (fst kv))) kw)"
      by simp
    from Cons.IH [OF l this True] show ?thesis .
  next
    case False
    with Cons.prems(3) kv have eq: "k = key" "ns = names" by auto
    from Cons.prems(2) kv g
    have "Inr g \<notin> (\<lambda>kv. resolve env (backup_path (fst kv))) ` set kw" by simp
    then have "\<forall>kv\<in>set kw. resolve env (backup_path (fst kv)) \<noteq> Inr g"
      by (metis image_eqI)
    from save_data_loop_other [OF l this] g eq show ?thesis by simp
  qed
qed


lemma save_data_loop_fails:
  "(key, names) \<in> set kw \<Longrightarrow> resolve env (backup_path key) = Inl e \<Longrightarrow>
   \<exists>e'. save_data_loop env files kw = Inl e'"
proof (induction kw arbitrary: files)
  case Nil
  then show ?case by simp
next
  case (Cons kv kw)
  obtain k ns where kv: "kv = (k, ns)" by (cases kv)
  show ?case
  proof (cases "resolve env (backup_path k)")
    case (Inl e1)
    with kv show ?thesis by (simp add: backup_path_def open_w_def)
  next
    case (Inr f)
    with Cons.prems(2) kv have "(key, names) \<noteq> kv" by auto
    with Cons.prems(1) have "(key, names) \<in> set kw" by simp
    from Cons.IH [OF this Cons.prems(2)] Inr kv show ?thesis
      by (simp add: backup_path_def open_w_def)
  qed
qed

lemma save_data_Inr_loop:
  "save_data env files kwargs = Inr files' \<Longrightarrow> save_data_loop env files kwargs = Inr files'"
  by (auto simp: save_data_def split: if_splits option.splits)

subsection \<open>What \<open>main\<close> saves\<close>

lemma map_filter_items_mem:
  "(k, S) \<in> set (List.map_filter (\<lambda>k. map_option (Pair k) (d k)) ks) \<Longrightarrow> d k = Some S"
  by (induction ks) (auto simp: List.map_filter_simps split: option.splits)

lemma map_filter_items_keys:
  "map fst (List.map_filter (\<lambda>k. map_option (Pair k) (d k)) ks) = filter (\<lambda>k. d k \<noteq> None) ks"
  by (induction ks) (auto simp: List.map_filter_simps split: option.splits)

lemma items_mem: "(k, S) \<in> set (items d) \<Longrightarrow> d k = Some S"
  unfolding items_def by (rule map_filter_items_mem)

lemma items_distinct: "distinct (map fst (items d))"
  unfolding items_def map_filter_items_keys by simp

lemma sum_pkgs_subset:
  assumes "sum_pkgs [\<lparr>cls = MarkedPackages, attrs = Some marked\<rparr>,
                     \<lparr>cls = LogsPackages, attrs = Some logs\<rparr>,
                     \<lparr>cls = SnapPackages, attrs = Some snap\<rparr>] = Inr (names, dpnds)"
  shows "names \<subseteq> pkgs_names marked \<and> dpnds \<subseteq> pkgs_dpnds marked"
  using assms by (auto simp: sum_pkgs_def Let_def)

lemma struct_pkgs_values:
  assumes "struct_pkgs [\<lparr>cls = MarkedPackages, attrs = Some marked\<rparr>,
                        \<lparr>cls = LogsPackages, attrs = Some logs\<rparr>,
                        \<lparr>cls = SnapPackages, attrs = Some snap\<rparr>] names = Inr struct"
    and "struct k = Some S"
  shows "S \<subseteq> names \<or> S = pkgs_names snap"
  using assms by (auto simp: struct_pkgs_def Let_def split: if_splits)

lemma main_kwargs_no_line_feed:
  assumes "main_kwargs sh = Inr kwargs" and "(key, S) \<in> set kwargs" and "v \<in> S"
  shows "NL \<notin> set v"
proof -
  from assms(1) obtain marked logs snap names dpnds struct where
    m: "MarkedPackages_main sh = Inr marked" and s: "SnapPackages_main sh = Inr snap"
    and sum: "sum_pkgs [\<lparr>cls = MarkedPackages, attrs = Some marked\<rparr>,
                        \<lparr>cls = LogsPackages, attrs = Some logs\<rparr>,
                        \<lparr>cls = SnapPackages, attrs = Some snap\<rparr>] = Inr (names, dpnds)"
    and str: "struct_pkgs [\<lparr>cls = MarkedPackages, attrs = Some marked\<rparr>,
                           \<lparr>cls = LogsPackages, attrs = Some logs\<rparr>,
                           \<lparr>cls = SnapPackages, attrs = Some snap\<rparr>] names = Inr struct"
    and kw: "kwargs = items (struct(''full_pkgs'' \<mapsto> names, ''full_dpnds'' \<mapsto> dpnds))"
    by (auto simp: main_kwargs_def Let_def split: sum.splits prod.splits)
  from assms(2) have "(key, S) \<in> set (items (struct(''full_pkgs'' \<mapsto> names, ''full_dpnds'' \<mapsto> dpnds)))"
    unfolding kw .
  then have "(struct(''full_pkgs'' \<mapsto> names, ''full_dpnds'' \<mapsto> dpnds)) key = Some S"
    by (rule items_mem)
  then have "S = dpnds \<or> S = names \<or> struct key = Some S"
    by (auto split: if_splits)
  with struct_pkgs_values [OF str] have "S \<subseteq> dpnds \<or> S \<subseteq> names \<or> S = pkgs_names snap"
    by blast
  with sum_pkgs_subset [OF sum] assms(3)
  have "v \<in> pkgs_names marked \<union> pkgs_dpnds marked \<or> v \<in> pkgs_names snap \<union> pkgs_dpnds snap"
    by blast
  then show ?thesis
  proof
    assume "v \<in> pkgs_names marked \<union> pkgs_dpnds marked"
    with m show ?thesis by (intro stored_names_no_line_feed [of sh marked v]) simp_all
  next
    assume "v \<in> pkgs_names snap \<union> pkgs_dpnds snap"
    with s show ?thesis by (intro stored_names_no_line_feed [of sh snap v]) simp_all
  qed
qed

lemma main_kwargs_keys: "main_kwargs sh = Inr kwargs \<Longrightarrow> distinct (map fst kwargs)"
  by (auto simp: main_kwargs_def Let_def items_distinct split: sum.splits prod.splits)


lemma save_data_content:
  assumes "save_data env files kwargs = Inr files'" and "(key, names) \<in> set kwargs"
    and "distinct (map (\<lambda>kv. resolve env (backup_path (fst kv))) kwargs)"
  shows "\<exists>f. resolve env (backup_path key) = Inr f \<and>
             files' f = Some (concat (map (\<lambda>v. v @ [NL]) (iteration env names)))"
  using save_data_loop_content [OF save_data_Inr_loop [OF assms(1)] assms(3) assms(2)] .

lemma save_data_read_back:
  assumes "save_data env files kwargs = Inr files'" and "(key, names) \<in> set kwargs"
    and "distinct (map (\<lambda>kv. resolve env (backup_path (fst kv))) kwargs)"
    and "set (iteration env names) = names" and "\<forall>v\<in>names. NL \<notin> set v"
  shows "read_back env (Inr files') key = Some names"
proof -
  from save_data_content [OF assms(1,2,3)] obtain f where
    f: "resolve env (backup_path key) = Inr f"
    and c: "files' f = Some (concat (map (\<lambda>v. v @ [NL]) (iteration env names)))"
    by blast
  from assms(4,5) have "\<forall>v\<in>set (iteration env names). NL \<notin> set v" by simp
  then have "read_lines (concat (map (\<lambda>v. v @ [NL]) (iteration env names))) = iteration env names"
    by (rule read_lines_written)
  with f c assms(4) show ?thesis by (simp add: read_back_def)
qed

lemma main_round_trip:
  assumes "main sh env files = Inr files'" and "main_kwargs sh = Inr kwargs"
    and "(key, names) \<in> set kwargs"
    and "distinct (map (\<lambda>kv. resolve env (backup_path (fst kv))) kwargs)"
    and "set (iteration env names) = names"
  shows "read_back env (Inr files') key = Some names"
proof -
  from assms(1,2) have "save_data env files kwargs = Inr files'" by (simp add: main_def)
  moreover from main_kwargs_no_line_feed [OF assms(2,3)] have "\<forall>v\<in>names. NL \<notin> set v" by blast
  ultimately show ?thesis using assms(3,4,5) by (intro save_data_read_back)
qed



end
